theory Spec2Isabelle
  imports Complex_Main "HOL-Library.Word" "HOL-Library.Monad_Syntax" "HOL-Library.Log_Nat"
begin

unbundle bit_operations_syntax

section \<open>The trading-pipeline testbench (cpp_testbench/fpga_trading_system_test.cpp)\<close>

subsection \<open>Device under test and harness state\<close>

text \<open>
  The ports of the verilated trading system that the harness drives and polls. One-bit
  ports are booleans. The generated model class \<open>Vfpga_trading_system_tb\<close> is not part of
  the sources: everything else the device holds (its registers, its other outputs) is the
  field \<open>internals\<close>, of an arbitrary type, and its \<open>eval()\<close> is a parameter \<open>ev\<close> of every
  harness operation.
\<close>

record clock_reset =
  clk :: bool
  rst_n :: bool

record 'i Vfpga_trading_system_tb = clock_reset +
  market_data_valid :: bool
  market_data_in :: "64 word"
  market_data_type :: "8 word"
  order_execution_valid :: bool
  internals :: 'i

text \<open>
  The members of \<open>FPGATradingSystemTest\<close>. The waveform sink \<open>trace\<close> is the list of the
  samples dumped so far: a time stamp and the device as it was when \<open>dump\<close> was called.
\<close>

record 'i FPGATradingSystemTest =
  dut :: "'i Vfpga_trading_system_tb"
  trace :: "(64 word \<times> 'i Vfpga_trading_system_tb) list"
  cycle_count :: "64 word"
  total_ticks :: "64 word"
  total_executions :: "64 word"
  total_latency :: "64 word"
  max_latency :: "64 word"
  min_latency :: "64 word"
  symbol_codes :: "32 word list"

subsection \<open>Symbol table\<close>

definition symbols :: "string list" where
  "symbols = [''AAPL'', ''GOOGL'', ''MSFT'', ''TSLA'', ''NVDA'']"

text \<open>
  \<open>static_cast<uint32_t>(symbol[i])\<close>: a \<open>char\<close> is a signed byte on the platforms the
  testbench is built for, so the conversion sign-extends. It is the byte itself for the
  ASCII characters of a ticker symbol.
\<close>

definition char_to_uint32 :: "char \<Rightarrow> 32 word" where
  "char_to_uint32 c = scast (of_char c :: 8 word)"

text \<open>The inner loop of \<open>initializeSymbolCodes\<close>, from index \<open>i\<close> with the code so far.\<close>

function pack_symbol_loop :: "string \<Rightarrow> nat \<Rightarrow> 32 word \<Rightarrow> 32 word" where
  "pack_symbol_loop symbol i code =
     (if i < min (length symbol) 4
      then pack_symbol_loop symbol (i + 1)
             (code OR push_bit (24 - i * 8) (char_to_uint32 (symbol ! i)))
      else code)"
  by pat_completeness auto
termination
  by (relation "measure (\<lambda>(symbol, i, code). min (length symbol) 4 - i)") auto

declare pack_symbol_loop.simps [simp del]

definition pack_symbol :: "string \<Rightarrow> 32 word" where
  "pack_symbol symbol = pack_symbol_loop symbol 0 0"

text \<open>
  The specification's reading of the packing: byte \<open>k\<close> of the code, counted from the most
  significant one, is character \<open>k\<close> of the symbol, and zero past the symbol's end.
\<close>

definition symbol_byte :: "string \<Rightarrow> nat \<Rightarrow> 8 word" where
  "symbol_byte symbol k = (if k < length symbol then of_char (symbol ! k) else 0)"

definition initializeSymbolCodes :: "'i FPGATradingSystemTest \<Rightarrow> 'i FPGATradingSystemTest" where
  "initializeSymbolCodes t =
     t\<lparr>symbol_codes := foldl (\<lambda>codes symbol. codes @ [pack_symbol symbol]) (symbol_codes t) symbols\<rparr>"

text \<open>
  The constructor: counters at zero, \<open>min_latency\<close> at \<open>UINT64_MAX\<close>, an empty trace, the
  symbol codes computed. \<open>d0\<close> is the device as its own constructor leaves it.
\<close>

definition new_FPGATradingSystemTest :: "'i Vfpga_trading_system_tb \<Rightarrow> 'i FPGATradingSystemTest" where
  "new_FPGATradingSystemTest d0 =
     initializeSymbolCodes
       \<lparr>dut = d0, trace = [], cycle_count = 0, total_ticks = 0, total_executions = 0,
        total_latency = 0, max_latency = 0, min_latency = - 1, symbol_codes = []\<rparr>"

definition CLOCK_PERIOD :: "64 word" where
  "CLOCK_PERIOD = 4"

subsection \<open>Clock driver\<close>

definition clockCycle ::
  "('i Vfpga_trading_system_tb \<Rightarrow> 'i Vfpga_trading_system_tb) \<Rightarrow>
   'i FPGATradingSystemTest \<Rightarrow> 'i FPGATradingSystemTest" where
  "clockCycle ev t =
     (let d1 = ev ((dut t)\<lparr>clk := False\<rparr>);
          tr1 = trace t @ [(cycle_count t * CLOCK_PERIOD, d1)];
          d2 = ev (d1\<lparr>clk := True\<rparr>);
          tr2 = tr1 @ [(cycle_count t * CLOCK_PERIOD + CLOCK_PERIOD div 2, d2)]
      in t\<lparr>dut := d2, trace := tr2, cycle_count := cycle_count t + 1\<rparr>)"

text \<open>A counted loop \<open>for (int i = \<dots>; i < n; ++i) body\<close>.\<close>

function for_range :: "int \<Rightarrow> int \<Rightarrow> ('s \<Rightarrow> 's) \<Rightarrow> 's \<Rightarrow> 's" where
  "for_range i n body s = (if i < n then for_range (i + 1) n body (body s) else s)"
  by pat_completeness auto
termination
  by (relation "measure (\<lambda>(i, n, body, s). nat (n - i))") auto

declare for_range.simps [simp del]

subsection \<open>Reset\<close>


subsection \<open>Stimulus injection\<close>

text \<open>
  \<open>sendMarketData(symbol_code, price, volume, msg_type)\<close>. The argument \<open>volume\<close> is taken
  and never used, as in the source.
\<close>

definition sendMarketData ::
  "('i Vfpga_trading_system_tb \<Rightarrow> 'i Vfpga_trading_system_tb) \<Rightarrow>
   32 word \<Rightarrow> 32 word \<Rightarrow> 32 word \<Rightarrow> 8 word \<Rightarrow>
   'i FPGATradingSystemTest \<Rightarrow> 'i FPGATradingSystemTest" where
  "sendMarketData ev symbol_code price volume msg_type t =
     (let t1 = t\<lparr>dut := (dut t)\<lparr>market_data_type := msg_type\<rparr>\<rparr>;
          t2 = t1\<lparr>dut := (dut t1)\<lparr>market_data_in := push_bit 32 (ucast symbol_code) OR ucast price\<rparr>\<rparr>;
          t3 = t2\<lparr>dut := (dut t2)\<lparr>market_data_valid := True\<rparr>\<rparr>;
          t4 = clockCycle ev t3;
          t5 = t4\<lparr>dut := (dut t4)\<lparr>market_data_valid := False\<rparr>\<rparr>
      in t5\<lparr>total_ticks := total_ticks t5 + 1\<rparr>)"

subsection \<open>Response collection\<close>

text \<open>A counter below a bound of its own width is incremented without wrapping.\<close>

lemma unat_Suc_less:
  fixes w m :: "'a::len word"
  assumes "w < m"
  shows "unat (w + 1) = Suc (unat w)"
proof -
  from assms have "unat w < unat m" by (simp add: word_less_nat_alt)
  moreover have "unat m < 2 ^ LENGTH('a)" by (rule unsigned_less)
  ultimately have "Suc (unat w) < 2 ^ LENGTH('a)" by linarith
  then show ?thesis by (simp add: unat_word_ariths)
qed

text \<open>The \<open>while\<close> loop of \<open>waitForExecution\<close>; \<open>wait_cycles\<close> is its counter.\<close>

function wait_loop ::
  "('i Vfpga_trading_system_tb \<Rightarrow> 'i Vfpga_trading_system_tb) \<Rightarrow>
   32 word \<Rightarrow> 32 word \<Rightarrow> 'i FPGATradingSystemTest \<Rightarrow> 'i FPGATradingSystemTest" where
  "wait_loop ev max_cycles wait_cycles t =
     (if \<not> order_execution_valid (dut t) \<and> wait_cycles < max_cycles
      then wait_loop ev max_cycles (wait_cycles + 1) (clockCycle ev t)
      else t)"
  by pat_completeness auto
termination
  by (relation "measure (\<lambda>(ev, max_cycles, wait_cycles, t). unat max_cycles - unat wait_cycles)")
    (auto simp: unat_Suc_less word_less_nat_alt)

declare wait_loop.simps [simp del]

definition waitForExecution ::
  "('i Vfpga_trading_system_tb \<Rightarrow> 'i Vfpga_trading_system_tb) \<Rightarrow>
   32 word \<Rightarrow> 'i FPGATradingSystemTest \<Rightarrow> 'i FPGATradingSystemTest" where
  "waitForExecution ev max_cycles t =
     (let start_cycle = cycle_count t;
          t1 = wait_loop ev max_cycles 0 t
      in if order_execution_valid (dut t1)
         then let latency = cycle_count t1 - start_cycle;
                  t2 = t1\<lparr>total_latency := total_latency t1 + latency\<rparr>;
                  t3 = t2\<lparr>total_executions := total_executions t2 + 1\<rparr>;
                  t4 = (if latency > max_latency t3 then t3\<lparr>max_latency := latency\<rparr> else t3)
              in (if latency < min_latency t4 then t4\<lparr>min_latency := latency\<rparr> else t4)
         else t1)"

subsection \<open>Latency statistics\<close>

text \<open>
  The statistics block of \<open>runLatencyBenchmark\<close> computes in \<open>double\<close>. A finite double
  that is not negative is kept here as the rational number it stands for, and an
  operation gives its exact result rounded to the nearest number with 53 significant bits,
  ties to even, as IEEE 754 prescribes. Overflow and subnormal numbers are out of reach of
  the magnitudes that occur (sample counts and sums of cycle counts).
\<close>

definition round_half_even :: "rat \<Rightarrow> int" where
  "round_half_even s =
     (let q = \<lfloor>s\<rfloor>; d = s - of_int q
      in if d < 1 / 2 then q else if 1 / 2 < d then q + 1 else if even q then q else q + 1)"

text \<open>The exponent of a positive rational: the \<open>e\<close> with \<open>2\<^sup>e \<le> x < 2\<^sup>e\<^sup>+\<^sup>1\<close>.\<close>

definition ilog2 :: "rat \<Rightarrow> int" where
  "ilog2 x =
     (let (a, b) = quotient_of x;
          e = int (floorlog 2 (nat a)) - int (floorlog 2 (nat b))
      in if 2 powi e \<le> x then e else e - 1)"

definition round_to_double :: "rat \<Rightarrow> rat" where
  "round_to_double x =
     (if x \<le> 0 then 0
      else let k = 52 - ilog2 x
           in of_int (round_half_even (x * 2 powi k)) * 2 powi (- k))"

text \<open>
  \<open>static_cast<double>\<close> of an unsigned integer, the division and the multiplication of
  doubles, the literals \<open>0.95\<close> and \<open>0.99\<close>, and \<open>static_cast<size_t>\<close> of a double that is
  not negative (truncation).
\<close>

definition double_of_nat :: "nat \<Rightarrow> rat" where
  "double_of_nat n = round_to_double (of_nat n)"

definition double_div :: "rat \<Rightarrow> rat \<Rightarrow> rat" where
  "double_div x y = round_to_double (x / y)"

definition double_mult :: "rat \<Rightarrow> rat \<Rightarrow> rat" where
  "double_mult x y = round_to_double (x * y)"

definition double_0_95 :: rat where
  "double_0_95 = round_to_double (95 / 100)"

definition double_0_99 :: rat where
  "double_0_99 = round_to_double (99 / 100)"

definition size_t_of_double :: "rat \<Rightarrow> nat" where
  "size_t_of_double x = nat \<lfloor>x\<rfloor>"

text \<open>\<open>latencies[i]\<close>: reading past the end of the vector has no defined result, here \<open>None\<close>.\<close>

definition vector_at :: "'a list \<Rightarrow> nat \<Rightarrow> 'a option" where
  "vector_at v i = (if i < length v then Some (v ! i) else None)"

text \<open>
  The sampling loop of \<open>runLatencyBenchmark\<close>, from iteration \<open>i\<close> with the samples so far:
  one stimulus, the wait for its response, a sample if the response came, five idle
  cycles. \<open>None\<close>: \<open>symbol_codes[0]\<close> is read from an empty vector.
\<close>

function latency_samples_loop ::
  "('i Vfpga_trading_system_tb \<Rightarrow> 'i Vfpga_trading_system_tb) \<Rightarrow> int \<Rightarrow>
   'i FPGATradingSystemTest \<times> 64 word list \<Rightarrow> ('i FPGATradingSystemTest \<times> 64 word list) option" where
  "latency_samples_loop ev i (t, latencies) =
     (if i < 1000
      then do {
        let start_cycle = cycle_count t;
        code \<leftarrow> vector_at (symbol_codes t) 0;
        let t = sendMarketData ev code (0x96000000 + word_of_int i) 0x64000000 0x41 t;
        let t = waitForExecution ev 100 t;
        let latencies = (if order_execution_valid (dut t)
                         then latencies @ [cycle_count t - start_cycle] else latencies);
        let t = for_range 0 5 (clockCycle ev) t;
        latency_samples_loop ev (i + 1) (t, latencies)
      }
      else Some (t, latencies))"
  by pat_completeness auto
termination
  by (relation "measure (\<lambda>(ev, i, s). nat (1000 - i))") auto

declare latency_samples_loop.simps [simp del]

text \<open>What the block prints: the local variables and \<open>latencies.front()\<close>, \<open>latencies.back()\<close>.\<close>

record latency_report =
  avg_latency :: rat
  p50_latency :: "64 word"
  p95_latency :: "64 word"
  p99_latency :: "64 word"
  latencies_front :: "64 word"
  latencies_back :: "64 word"

text \<open>
  The block itself, from the samples collected. \<open>Some None\<close>: the vector is empty and
  nothing is computed. \<open>None\<close>: an index is out of range.
\<close>

definition latency_statistics :: "64 word list \<Rightarrow> latency_report option option" where
  "latency_statistics latencies =
     (if latencies = [] then Some None
      else do {
        let latencies = sort latencies;
        let sum = foldl (+) 0 latencies;
        let avg = double_div (double_of_nat (unat sum)) (double_of_nat (length latencies));
        p50 \<leftarrow> vector_at latencies (length latencies div 2);
        p95 \<leftarrow> vector_at latencies
                 (size_t_of_double (double_mult (double_of_nat (length latencies)) double_0_95));
        p99 \<leftarrow> vector_at latencies
                 (size_t_of_double (double_mult (double_of_nat (length latencies)) double_0_99));
        front \<leftarrow> vector_at latencies 0;
        back \<leftarrow> vector_at latencies (length latencies - 1);
        Some (Some \<lparr>avg_latency = avg, p50_latency = p50, p95_latency = p95,
                     p99_latency = p99, latencies_front = front, latencies_back = back\<rparr>)
      })"

section \<open>The market-data generator (cpp_testbench/market_data_generator.cpp)\<close>

text \<open>
  The names and codes that \<open>MarketDataGenerator::initializeSymbols\<close> writes down as
  literals (the price, volatility, volume and tick size of each entry are left out).
\<close>

definition generator_symbols :: "(string \<times> 32 word) list" where
  "generator_symbols =
     [(''AAPL'', 0x41415054), (''GOOGL'', 0x474f4f47), (''MSFT'', 0x4d534654),
      (''TSLA'', 0x54534c41), (''NVDA'', 0x4e564441)]"

section \<open>The verilated pricing unit (obj_dir/Vhjb_calculator*)\<close>

subsection \<open>Design state\<close>

text \<open>
  The members of \<open>Vhjb_calculator___024root\<close> and the \<open>__Vm_didInit\<close> flag of the symbol
  table. One-bit signals are booleans, \<open>CData\<close>, \<open>IData\<close> and \<open>QData\<close> are 8, 32 and 64 bit
  words, a \<open>VlTriggerVec<2>\<close> is its one 64-bit word. The loop counters \<open>__VactIterCount\<close> and
  \<open>__VactContinue\<close> are written before they are read in every \<open>eval\<close>; they are the
  arguments of the loops below.
\<close>

record Vhjb_calculator = clock_reset +
  calculate_en :: bool
  calculation_done :: bool
  hjb_calculator_state :: "8 word"
  Vtrigprevexpr_clk :: bool
  Vtrigprevexpr_rst_n :: bool
  inventory :: "32 word"
  latency_cycles :: "32 word"
  hjb_calculator_cycle_counter :: "32 word"
  mid_price :: "64 word"
  volatility :: "64 word"
  optimal_bid :: "64 word"
  optimal_ask :: "64 word"
  hjb_calculator_reservation_price :: "64 word"
  hjb_calculator_spread :: "64 word"
  VactTriggered :: "64 word"
  VnbaTriggered :: "64 word"
  Vm_didInit :: bool

text \<open>
  \<open>new Vhjb_calculator\<close>: \<open>ctor_var_reset\<close> fills every signal and register with a value that
  depends on the simulator's reset policy (zeros, ones or random), here the fields of an
  arbitrary \<open>r\<close>; the trigger vectors start cleared and \<open>__Vm_didInit\<close> false.
\<close>

definition new_Vhjb_calculator :: "Vhjb_calculator \<Rightarrow> Vhjb_calculator" where
  "new_Vhjb_calculator r = r\<lparr>VactTriggered := 0, VnbaTriggered := 0, Vm_didInit := False\<rparr>"

text \<open>The contents of a new model under the simulator's default policy: all zeros.\<close>

definition zero_reset :: Vhjb_calculator where
  "zero_reset =
     \<lparr>clk = False, rst_n = False, calculate_en = False, calculation_done = False,
      hjb_calculator_state = 0, Vtrigprevexpr_clk = False, Vtrigprevexpr_rst_n = False,
      inventory = 0, latency_cycles = 0, hjb_calculator_cycle_counter = 0, mid_price = 0,
      volatility = 0, optimal_bid = 0, optimal_ask = 0, hjb_calculator_reservation_price = 0,
      hjb_calculator_spread = 0, VactTriggered = 0, VnbaTriggered = 0, Vm_didInit = False\<rparr>"

subsection \<open>The clocked process\<close>

text \<open>
  \<open>___nba_sequent__TOP__0\<close>: the body of the design's one \<open>always\<close> block. Outputs and
  working registers are assigned in place; the state and the cycle counter go through the
  delayed copies \<open>__Vdly__\<dots>\<close> and are committed at the end.
\<close>

definition nba_sequent :: "Vhjb_calculator \<Rightarrow> Vhjb_calculator" where
  "nba_sequent vlSelf =
     (let st = (ucast (hjb_calculator_state vlSelf) :: 32 word);
          (vlSelf', Vdly_state, Vdly_cycle_counter) =
            (if rst_n vlSelf then
               if 4 AND st \<noteq> 0 then
                 if 2 AND st \<noteq> 0 then
                   (vlSelf, 0, hjb_calculator_cycle_counter vlSelf)
                 else if 1 AND st \<noteq> 0 then
                   (vlSelf, 0, hjb_calculator_cycle_counter vlSelf)
                 else
                   (vlSelf\<lparr>calculation_done := True,
                           latency_cycles := hjb_calculator_cycle_counter vlSelf\<rparr>,
                    if \<not> calculate_en vlSelf then 0 else hjb_calculator_state vlSelf,
                    hjb_calculator_cycle_counter vlSelf)
               else if 2 AND st \<noteq> 0 then
                 if 1 AND st \<noteq> 0 then
                   (vlSelf\<lparr>optimal_bid := hjb_calculator_reservation_price vlSelf
                                            - drop_bit 1 (hjb_calculator_spread vlSelf),
                           optimal_ask := hjb_calculator_reservation_price vlSelf
                                            + drop_bit 1 (hjb_calculator_spread vlSelf)\<rparr>,
                    4, 1 + hjb_calculator_cycle_counter vlSelf)
                 else
                   (vlSelf\<lparr>hjb_calculator_spread := drop_bit 7 (mid_price vlSelf)\<rparr>,
                    3, 1 + hjb_calculator_cycle_counter vlSelf)
               else if 1 AND st \<noteq> 0 then
                 (vlSelf\<lparr>hjb_calculator_reservation_price :=
                            mid_price vlSelf - push_bit 10 (ucast (inventory vlSelf))\<rparr>,
                  2, 1 + hjb_calculator_cycle_counter vlSelf)
               else
                 (vlSelf\<lparr>calculation_done := False\<rparr>,
                  if calculate_en vlSelf then 1 else hjb_calculator_state vlSelf,
                  if calculate_en vlSelf then 1 + hjb_calculator_cycle_counter vlSelf else 0)
             else
               (vlSelf\<lparr>optimal_bid := 0, optimal_ask := 0, calculation_done := False,
                       latency_cycles := 0\<rparr>,
                0, 0))
      in vlSelf'\<lparr>hjb_calculator_state := Vdly_state,
                  hjb_calculator_cycle_counter := Vdly_cycle_counter\<rparr>)"

definition eval_nba :: "Vhjb_calculator \<Rightarrow> Vhjb_calculator" where
  "eval_nba vlSelf = (if 3 AND VnbaTriggered vlSelf \<noteq> 0 then nba_sequent vlSelf else vlSelf)"

definition eval_act :: "Vhjb_calculator \<Rightarrow> Vhjb_calculator" where
  "eval_act vlSelf = vlSelf"

definition eval_static :: "Vhjb_calculator \<Rightarrow> Vhjb_calculator" where
  "eval_static vlSelf =
     vlSelf\<lparr>Vtrigprevexpr_clk := clk vlSelf, Vtrigprevexpr_rst_n := rst_n vlSelf\<rparr>"

subsection \<open>Triggers and the evaluation loop\<close>

text \<open>
  Modelled from the spec: \<open>___eval_triggers__act\<close> is declared and called in the sources
  but its body is not among them. The specification calls the device an edge-triggered
  design whose clock drives all synchronous state and whose reset is active low, and
  \<open>___dump_triggers__act\<close> names the two triggers: index 0 is \<open>@(posedge clk)\<close>, index 1 is
  \<open>@(negedge rst_n)\<close>. An edge is a change since the previous evaluation, which the fields
  \<open>__Vtrigprevexpr___TOP__clk__0\<close> and \<open>__Vtrigprevexpr___TOP__rst_n__0\<close> remember.
\<close>

definition eval_triggers_act :: "Vhjb_calculator \<Rightarrow> Vhjb_calculator" where
  "eval_triggers_act vlSelf =
     vlSelf\<lparr>VactTriggered :=
                (if clk vlSelf \<and> \<not> Vtrigprevexpr_clk vlSelf then 1 else 0) OR
                (if \<not> rst_n vlSelf \<and> Vtrigprevexpr_rst_n vlSelf then 2 else 0),
             Vtrigprevexpr_clk := clk vlSelf,
             Vtrigprevexpr_rst_n := rst_n vlSelf\<rparr>"

definition eval_phase_act :: "Vhjb_calculator \<Rightarrow> bool \<times> Vhjb_calculator" where
  "eval_phase_act vlSelf =
     (let vlSelf = eval_triggers_act vlSelf;
          VactExecute = (VactTriggered vlSelf \<noteq> 0)
      in if VactExecute
         then (VactExecute,
               eval_act (vlSelf\<lparr>VnbaTriggered := VnbaTriggered vlSelf OR VactTriggered vlSelf\<rparr>))
         else (VactExecute, vlSelf))"

definition eval_phase_nba :: "Vhjb_calculator \<Rightarrow> bool \<times> Vhjb_calculator" where
  "eval_phase_nba vlSelf =
     (let VnbaExecute = (VnbaTriggered vlSelf \<noteq> 0)
      in if VnbaExecute
         then (VnbaExecute, (eval_nba vlSelf)\<lparr>VnbaTriggered := 0\<rparr>)
         else (VnbaExecute, vlSelf))"

text \<open>
  The two nested loops of \<open>___eval\<close>. Each gives up with \<open>VL_FATAL_MT\<close>, which ends the
  process, once its counter has passed \<open>0x64\<close>: that is the result \<open>None\<close>.
\<close>

function act_loop :: "32 word \<Rightarrow> Vhjb_calculator \<Rightarrow> Vhjb_calculator option" where
  "act_loop VactIterCount vlSelf =
     (if 0x64 < VactIterCount then None
      else case eval_phase_act vlSelf of
             (True, vlSelf') \<Rightarrow> act_loop (1 + VactIterCount) vlSelf'
           | (False, vlSelf') \<Rightarrow> Some vlSelf')"
  by pat_completeness auto
termination
proof (relation "measure (\<lambda>(VactIterCount, vlSelf). 0x65 - unat VactIterCount)")
  fix VactIterCount :: "32 word" and vlSelf x y
  assume "\<not> 0x64 < VactIterCount"
  then have lt: "VactIterCount < 0x65"
    by (simp add: word_less_nat_alt word_le_nat_alt not_less)
  have "unat (VactIterCount + 1) = Suc (unat VactIterCount)"
    by (rule unat_Suc_less [OF lt])
  moreover have "unat VactIterCount < 0x65"
    using lt by (simp add: word_less_nat_alt)
  ultimately show "((1 + VactIterCount, y), (VactIterCount, vlSelf))
      \<in> measure (\<lambda>(VactIterCount, vlSelf). 0x65 - unat VactIterCount)"
    by (simp add: add.commute)
qed simp

function nba_loop :: "32 word \<Rightarrow> Vhjb_calculator \<Rightarrow> Vhjb_calculator option" where
  "nba_loop VnbaIterCount vlSelf =
     (if 0x64 < VnbaIterCount then None
      else case act_loop 0 vlSelf of
             None \<Rightarrow> None
           | Some vlSelf' \<Rightarrow>
               (case eval_phase_nba vlSelf' of
                  (True, vlSelf'') \<Rightarrow> nba_loop (1 + VnbaIterCount) vlSelf''
                | (False, vlSelf'') \<Rightarrow> Some vlSelf''))"
  by pat_completeness auto
termination
proof (relation "measure (\<lambda>(VnbaIterCount, vlSelf). 0x65 - unat VnbaIterCount)")
  fix VnbaIterCount :: "32 word" and vlSelf x2 x y
  assume "\<not> 0x64 < VnbaIterCount"
  then have lt: "VnbaIterCount < 0x65"
    by (simp add: word_less_nat_alt word_le_nat_alt not_less)
  have "unat (VnbaIterCount + 1) = Suc (unat VnbaIterCount)"
    by (rule unat_Suc_less [OF lt])
  moreover have "unat VnbaIterCount < 0x65"
    using lt by (simp add: word_less_nat_alt)
  ultimately show "((1 + VnbaIterCount, y), (VnbaIterCount, vlSelf))
      \<in> measure (\<lambda>(VnbaIterCount, vlSelf). 0x65 - unat VnbaIterCount)"
    by (simp add: add.commute)
qed simp

declare act_loop.simps [simp del] nba_loop.simps [simp del]

text \<open>
  \<open>Vhjb_calculator::eval\<close>, that is \<open>eval_step\<close>: on the first call the static, initial and
  settle phases (the last two are empty), then \<open>___eval\<close>.
\<close>

definition Vhjb_eval :: "Vhjb_calculator \<Rightarrow> Vhjb_calculator option" where
  "Vhjb_eval vlSelf =
     (let vlSelf = (if \<not> Vm_didInit vlSelf
                    then eval_static (vlSelf\<lparr>Vm_didInit := True\<rparr>)
                    else vlSelf)
      in nba_loop 0 vlSelf)"

section \<open>The synchronous calculation bridge (cpp_wrapper/hjb_wrapper.cpp)\<close>

text \<open>
  The two file-scope variables of the wrapper: the device handle (\<open>None\<close> is \<open>nullptr\<close>) and
  the time counter, which outlives the handle.
\<close>

record hjb_wrapper =
  hjb_module :: "Vhjb_calculator option"
  main_time :: "64 word"

text \<open>
  \<open>struct HJBResult\<close>. A \<open>double\<close> is kept as its 64-bit pattern: the unions of
  \<open>hjb_calculate\<close> reinterpret the bits and change none.
\<close>

record HJBResult =
  bid :: "64 word"
  ask :: "64 word"
  latency_ns :: "32 word"

text \<open>
  Every operation takes the device's \<open>eval()\<close> as the parameter \<open>ev\<close>; the wrapper as built
  is the instance at \<open>Vhjb_eval\<close>. The result \<open>None\<close> is the process ended by \<open>VL_FATAL_MT\<close>
  inside an evaluation.
\<close>

text \<open>The loop \<open>for (int i = 0; i < 5; i++)\<close> of \<open>hjb_init\<close>.\<close>

function reset_clock_loop ::
  "(Vhjb_calculator \<Rightarrow> Vhjb_calculator option) \<Rightarrow> int \<Rightarrow>
   Vhjb_calculator \<times> 64 word \<Rightarrow> (Vhjb_calculator \<times> 64 word) option" where
  "reset_clock_loop ev i (m, t) =
     (if i < 5
      then case ev (m\<lparr>clk := \<not> clk m\<rparr>) of
             None \<Rightarrow> None
           | Some m' \<Rightarrow> reset_clock_loop ev (i + 1) (m', t + 1)
      else Some (m, t))"
  by pat_completeness auto
termination
  by (relation "measure (\<lambda>(ev, i, mt). nat (5 - i))") auto

declare reset_clock_loop.simps [simp del]

text \<open>\<open>hjb_init\<close>; \<open>r\<close> stands for the initial contents of a newly constructed model.\<close>

definition hjb_init_with ::
  "(Vhjb_calculator \<Rightarrow> Vhjb_calculator option) \<Rightarrow> Vhjb_calculator \<Rightarrow>
   hjb_wrapper \<Rightarrow> (int \<times> hjb_wrapper) option" where
  "hjb_init_with ev r w =
     (case hjb_module w of
        Some m \<Rightarrow> Some (0, w)
      | None \<Rightarrow> do {
          let m = new_Vhjb_calculator r;
          let m = m\<lparr>rst_n := False\<rparr>;
          let m = m\<lparr>clk := False\<rparr>;
          let m = m\<lparr>calculate_en := False\<rparr>;
          m \<leftarrow> ev m;
          (m, t) \<leftarrow> reset_clock_loop ev 0 (m, main_time w);
          let m = m\<lparr>rst_n := True\<rparr>;
          m \<leftarrow> ev m;
          Some (0, \<lparr>hjb_module = Some m, main_time = t\<rparr>)
        })"

text \<open>The loop \<open>while (!calculation_done && (main_time - start_time) < 1000)\<close>.\<close>

function clock_until_done ::
  "(Vhjb_calculator \<Rightarrow> Vhjb_calculator option) \<Rightarrow> 64 word \<Rightarrow>
   Vhjb_calculator \<times> 64 word \<Rightarrow> (Vhjb_calculator \<times> 64 word) option" where
  "clock_until_done ev start_time (m, t) =
     (if \<not> calculation_done m \<and> t - start_time < 1000
      then case ev (m\<lparr>clk := \<not> clk m\<rparr>) of
             None \<Rightarrow> None
           | Some m' \<Rightarrow> clock_until_done ev start_time (m', t + 1)
      else Some (m, t))"
  by pat_completeness auto
termination
proof (relation "measure (\<lambda>(ev, start_time, m, t). 1000 - unat (t - start_time))")
  fix ev :: "Vhjb_calculator \<Rightarrow> Vhjb_calculator option"
    and start_time t :: "64 word" and m m' :: Vhjb_calculator
  assume "\<not> calculation_done m \<and> t - start_time < 1000"
  then have lt: "t - start_time < 1000" by simp
  have "unat (t - start_time + 1) = Suc (unat (t - start_time))"
    by (rule unat_Suc_less [OF lt])
  moreover have "t + 1 - start_time = t - start_time + 1"
    by simp
  ultimately have "unat (t + 1 - start_time) = Suc (unat (t - start_time))"
    by (simp only:)
  moreover have "unat (t - start_time) < 1000"
    using lt by (simp add: word_less_nat_alt)
  ultimately show "((ev, start_time, m', t + 1), (ev, start_time, m, t))
      \<in> measure (\<lambda>(ev, start_time, m, t). 1000 - unat (t - start_time))"
    by simp
qed simp

declare clock_until_done.simps [simp del]

text \<open>
  \<open>hjb_calculate\<close>. The out-parameter \<open>result\<close> is threaded through: the structure comes
  back as it was unless the call succeeds. The return code is the first component.
\<close>

definition hjb_calculate_with ::
  "(Vhjb_calculator \<Rightarrow> Vhjb_calculator option) \<Rightarrow> 64 word \<Rightarrow> 32 word \<Rightarrow> 64 word \<Rightarrow>
   HJBResult \<Rightarrow> hjb_wrapper \<Rightarrow> (int \<times> HJBResult \<times> hjb_wrapper) option" where
  "hjb_calculate_with ev mid_price_bits inventory_bits volatility_bits result w =
     (case hjb_module w of
        None \<Rightarrow> Some (- 1, result, w)
      | Some m \<Rightarrow> do {
          let start_time = main_time w;
          let m = m\<lparr>mid_price := mid_price_bits\<rparr>;
          let m = m\<lparr>inventory := inventory_bits\<rparr>;
          let m = m\<lparr>volatility := volatility_bits\<rparr>;
          let m = m\<lparr>calculate_en := True\<rparr>;
          m \<leftarrow> ev m;
          (m, t) \<leftarrow> clock_until_done ev start_time (m, main_time w);
          if calculation_done m
          then do {
            let result = result\<lparr>bid := optimal_bid m\<rparr>;
            let result = result\<lparr>ask := optimal_ask m\<rparr>;
            let result = result\<lparr>latency_ns := latency_cycles m * 4\<rparr>;
            let m = m\<lparr>calculate_en := False\<rparr>;
            m \<leftarrow> ev m;
            Some (0, result, \<lparr>hjb_module = Some m, main_time = t\<rparr>)
          }
          else Some (- 1, result, \<lparr>hjb_module = Some m, main_time = t\<rparr>)
        })"

definition hjb_cleanup :: "hjb_wrapper \<Rightarrow> hjb_wrapper" where
  "hjb_cleanup w = (case hjb_module w of Some m \<Rightarrow> w\<lparr>hjb_module := None\<rparr> | None \<Rightarrow> w)"

text \<open>The wrapper as linked against the verilated pricing unit.\<close>

definition hjb_init :: "Vhjb_calculator \<Rightarrow> hjb_wrapper \<Rightarrow> (int \<times> hjb_wrapper) option" where
  "hjb_init = hjb_init_with Vhjb_eval"

definition hjb_calculate ::
  "64 word \<Rightarrow> 32 word \<Rightarrow> 64 word \<Rightarrow> HJBResult \<Rightarrow> hjb_wrapper \<Rightarrow>
   (int \<times> HJBResult \<times> hjb_wrapper) option" where
  "hjb_calculate = hjb_calculate_with Vhjb_eval"


section \<open>Notions used in the properties\<close>

subsection \<open>The trading device\<close>






subsection \<open>The pricing unit\<close>

text \<open>
  What an evaluation comes to once its loops are unrolled: the edge detectors are read
  once, the clocked process runs once if one of them (or a pending trigger) fired, and the
  trigger vectors end cleared. The loops never reach their bound, so an evaluation never
  ends the process.
\<close>

definition eval_closed_form :: "Vhjb_calculator \<Rightarrow> Vhjb_calculator" where
  "eval_closed_form m =
     (let m1 = (if \<not> Vm_didInit m then eval_static (m\<lparr>Vm_didInit := True\<rparr>) else m);
          m2 = eval_triggers_act m1;
          nb = VnbaTriggered m2 OR VactTriggered m2;
          m3 = m2\<lparr>VactTriggered := 0, VnbaTriggered := nb\<rparr>;
          m4 = (if nb \<noteq> 0 then eval_nba m3 else m3)
      in m4\<lparr>VnbaTriggered := 0\<rparr>)"

text \<open>
  A model is settled when it has been initialised, no trigger is pending and the edge
  detectors have seen the current levels of \<open>clk\<close> and \<open>rst_n\<close>: the state every evaluation
  ends in.
\<close>

definition settled :: "Vhjb_calculator \<Rightarrow> bool" where
  "settled m \<longleftrightarrow> Vm_didInit m \<and> VnbaTriggered m = 0 \<and>
     Vtrigprevexpr_clk m = clk m \<and> Vtrigprevexpr_rst_n m = rst_n m"

text \<open>The contents \<open>hjb_init\<close> leaves in a model whose registers started as \<open>r\<close>.\<close>

definition after_hjb_init :: "Vhjb_calculator \<Rightarrow> Vhjb_calculator" where
  "after_hjb_init r = r\<lparr>clk := True, rst_n := True, calculate_en := False,
        calculation_done := False, hjb_calculator_state := 0, Vtrigprevexpr_clk := True,
        Vtrigprevexpr_rst_n := True, latency_cycles := 0, hjb_calculator_cycle_counter := 0,
        optimal_bid := 0, optimal_ask := 0, VactTriggered := 0, VnbaTriggered := 0,
        Vm_didInit := True\<rparr>"

subsection \<open>The bridge's wait\<close>

text \<open>
  The model after \<open>k\<close> clock toggles, each followed by an evaluation: what \<open>k\<close> rounds of the
  wait loop of \<open>hjb_calculate\<close> do to the device. \<open>None\<close>: an evaluation ended the process.
\<close>

fun toggles ::
  "(Vhjb_calculator \<Rightarrow> Vhjb_calculator option) \<Rightarrow> nat \<Rightarrow> Vhjb_calculator \<Rightarrow>
   Vhjb_calculator option" where
  "toggles ev 0 m = Some m"
| "toggles ev (Suc k) m =
     (case ev (m\<lparr>clk := \<not> clk m\<rparr>) of None \<Rightarrow> None | Some m' \<Rightarrow> toggles ev k m')"

text \<open>After \<open>k\<close> toggles the device is still evaluating and has not raised \<open>calculation_done\<close>.\<close>

definition running ::
  "(Vhjb_calculator \<Rightarrow> Vhjb_calculator option) \<Rightarrow> Vhjb_calculator \<Rightarrow> nat \<Rightarrow> bool" where
  "running ev m k \<longleftrightarrow>
     (case toggles ev k m of None \<Rightarrow> False | Some mk \<Rightarrow> \<not> calculation_done mk)"

text \<open>
  A device to exercise the bridge with: it counts the rising edges of \<open>clk\<close> in its cycle
  counter and raises \<open>calculation_done\<close> at the \<open>n\<close>-th, that is after \<open>n\<close> full clock cycles.
\<close>

definition edge_counting_device :: "nat \<Rightarrow> Vhjb_calculator \<Rightarrow> Vhjb_calculator option" where
  "edge_counting_device n m =
     Some (if clk m \<and> \<not> Vtrigprevexpr_clk m
           then m\<lparr>Vtrigprevexpr_clk := True,
                  hjb_calculator_cycle_counter := hjb_calculator_cycle_counter m + 1,
                  calculation_done := (n \<le> unat (hjb_calculator_cycle_counter m + 1))\<rparr>
           else m\<lparr>Vtrigprevexpr_clk := clk m\<rparr>)"

section \<open>Properties of the testbench\<close>

subsection \<open>The clock driver counts cycles and touches no other counter\<close>

lemma clockCycle_counters:
  "cycle_count (clockCycle ev t) = cycle_count t + 1"
  "total_ticks (clockCycle ev t) = total_ticks t"
  "total_executions (clockCycle ev t) = total_executions t"
  "total_latency (clockCycle ev t) = total_latency t"
  "max_latency (clockCycle ev t) = max_latency t"
  "min_latency (clockCycle ev t) = min_latency t"
  "symbol_codes (clockCycle ev t) = symbol_codes t"
  by (simp_all add: clockCycle_def Let_def)

lemma clockCycle_funpow_counters:
  "cycle_count ((clockCycle ev ^^ k) t) = cycle_count t + of_nat k"
  "total_ticks ((clockCycle ev ^^ k) t) = total_ticks t"
  "total_executions ((clockCycle ev ^^ k) t) = total_executions t"
  "total_latency ((clockCycle ev ^^ k) t) = total_latency t"
  "max_latency ((clockCycle ev ^^ k) t) = max_latency t"
  "min_latency ((clockCycle ev ^^ k) t) = min_latency t"
  "symbol_codes ((clockCycle ev ^^ k) t) = symbol_codes t"
  by (induction k; simp add: clockCycle_counters)+

lemma wait_loop_never_valid:
  assumes "\<forall>k \<le> unat max_cycles - unat wait_cycles.
             \<not> order_execution_valid (dut ((clockCycle ev ^^ k) t))"
  shows "wait_loop ev max_cycles wait_cycles t =
           (clockCycle ev ^^ (unat max_cycles - unat wait_cycles)) t"
  using assms
proof (induction ev max_cycles wait_cycles t rule: wait_loop.induct)
  case (1 ev max_cycles wait_cycles t)
  show ?case
  proof (cases "wait_cycles < max_cycles")
    case True
    from "1.prems" have nv: "\<not> order_execution_valid (dut t)"
      by (metis funpow_0 le0)
    have suc: "unat (wait_cycles + 1) = Suc (unat wait_cycles)"
      using True by (rule unat_Suc_less)
    have lt: "unat wait_cycles < unat max_cycles"
      using True by (simp add: word_less_nat_alt)
    have shifted: "\<forall>k \<le> unat max_cycles - unat (wait_cycles + 1).
        \<not> order_execution_valid (dut ((clockCycle ev ^^ k) (clockCycle ev t)))"
    proof (intro allI impI)
      fix k assume "k \<le> unat max_cycles - unat (wait_cycles + 1)"
      then have "Suc k \<le> unat max_cycles - unat wait_cycles"
        using suc lt by simp
      with "1.prems" have "\<not> order_execution_valid (dut ((clockCycle ev ^^ Suc k) t))"
        by blast
      then show "\<not> order_execution_valid (dut ((clockCycle ev ^^ k) (clockCycle ev t)))"
        by (simp add: funpow_swap1)
    qed
    have "wait_loop ev max_cycles wait_cycles t =
            wait_loop ev max_cycles (wait_cycles + 1) (clockCycle ev t)"
      using nv True by (subst wait_loop.simps) simp
    also have "\<dots> = (clockCycle ev ^^ (unat max_cycles - unat (wait_cycles + 1))) (clockCycle ev t)"
      using "1.IH" nv True shifted by simp
    also have "\<dots> = (clockCycle ev ^^ Suc (unat max_cycles - unat (wait_cycles + 1))) t"
      by (simp add: funpow_swap1)
    also have "Suc (unat max_cycles - unat (wait_cycles + 1)) = unat max_cycles - unat wait_cycles"
      using suc lt by simp
    finally show ?thesis .
  next
    case False
    then have "unat max_cycles - unat wait_cycles = 0"
      by (simp add: word_less_nat_alt)
    moreover have "wait_loop ev max_cycles wait_cycles t = t"
      using False by (subst wait_loop.simps) simp
    ultimately show ?thesis by simp
  qed
qed

text \<open>
  \<^bold>\<open>Claim C1.\<close> When the device never asserts \<open>order_execution_valid\<close> (neither at the call
  nor after any of the next \<open>max_cycles\<close> clock cycles), \<open>waitForExecution\<close> performs exactly
  \<open>max_cycles\<close> calls of \<open>clockCycle\<close>: the cycle counter advances by exactly \<open>max_cycles\<close>,
  the call returns with the valid signal still low (no response), and \<open>total_latency\<close>,
  \<open>total_executions\<close>, \<open>min_latency\<close>, \<open>max_latency\<close> and \<open>total_ticks\<close> are unchanged. The
  function is total and returns the harness state, so the scenario goes on.
\<close>

theorem waitForExecution_no_response:
  assumes "\<forall>k \<le> unat max_cycles. \<not> order_execution_valid (dut ((clockCycle ev ^^ k) t))"
  shows "waitForExecution ev max_cycles t = (clockCycle ev ^^ unat max_cycles) t \<and>
         cycle_count (waitForExecution ev max_cycles t) = cycle_count t + ucast max_cycles \<and>
         unat (cycle_count (waitForExecution ev max_cycles t) - cycle_count t) = unat max_cycles \<and>
         \<not> order_execution_valid (dut (waitForExecution ev max_cycles t)) \<and>
         total_latency (waitForExecution ev max_cycles t) = total_latency t \<and>
         total_executions (waitForExecution ev max_cycles t) = total_executions t \<and>
         min_latency (waitForExecution ev max_cycles t) = min_latency t \<and>
         max_latency (waitForExecution ev max_cycles t) = max_latency t \<and>
         total_ticks (waitForExecution ev max_cycles t) = total_ticks t"
proof -
  have loop: "wait_loop ev max_cycles 0 t = (clockCycle ev ^^ unat max_cycles) t"
    using assms wait_loop_never_valid [of max_cycles 0 ev t] by simp
  have nv: "\<not> order_execution_valid (dut ((clockCycle ev ^^ unat max_cycles) t))"
    using assms by blast
  have eq: "waitForExecution ev max_cycles t = (clockCycle ev ^^ unat max_cycles) t"
    using nv by (simp add: waitForExecution_def loop Let_def)
  have "unat max_cycles < 2 ^ 64"
    using unsigned_less [of max_cycles, where 'a = nat] by simp
  then have "unat (ucast max_cycles :: 64 word) = unat max_cycles"
    by (simp add: unsigned_ucast_eq take_bit_nat_eq_self)
  then show ?thesis
    using nv by (simp add: eq clockCycle_funpow_counters)
qed

lemma never_valid_funpow:
  assumes "\<And>d. \<not> order_execution_valid d \<Longrightarrow> \<not> order_execution_valid (ev d)"
    and "\<not> order_execution_valid (dut t)"
  shows "\<not> order_execution_valid (dut ((clockCycle ev ^^ k) t))"
proof (induction k)
  case 0
  from assms(2) show ?case by simp
next
  case (Suc k)
  then show ?case by (simp add: clockCycle_def Let_def assms(1))
qed

text \<open>C1 at an idle device (one whose \<open>eval()\<close> changes nothing) and the default bound of 100.\<close>

theorem waitForExecution_no_response_witness:
  "cycle_count (waitForExecution (\<lambda>d. d) 100
       (new_FPGATradingSystemTest
          \<lparr>clk = False, rst_n = True, market_data_valid = False, market_data_in = 0,
           market_data_type = 0, order_execution_valid = False, internals = ()\<rparr>)) = 100 \<and>
   total_executions (waitForExecution (\<lambda>d. d) 100
       (new_FPGATradingSystemTest
          \<lparr>clk = False, rst_n = True, market_data_valid = False, market_data_in = 0,
           market_data_type = 0, order_execution_valid = False, internals = ()\<rparr>)) = 0"
proof -
  define t where "t = new_FPGATradingSystemTest
          \<lparr>clk = False, rst_n = True, market_data_valid = False, market_data_in = 0,
           market_data_type = 0, order_execution_valid = False, internals = ()\<rparr>"
  have init: "\<not> order_execution_valid (dut t)" "cycle_count t = 0" "total_executions t = 0"
    by (simp_all add: t_def new_FPGATradingSystemTest_def initializeSymbolCodes_def)
  from init(1) have "\<forall>k \<le> unat (100 :: 32 word).
      \<not> order_execution_valid (dut ((clockCycle (\<lambda>d. d) ^^ k) t))"
    by (simp add: never_valid_funpow)
  from waitForExecution_no_response [OF this]
  have "cycle_count (waitForExecution (\<lambda>d. d) 100 t) = cycle_count t + ucast (100 :: 32 word)"
    and "total_executions (waitForExecution (\<lambda>d. d) 100 t) = total_executions t"
    by blast+
  then have "cycle_count (waitForExecution (\<lambda>d. d) 100 t) = 100 \<and>
        total_executions (waitForExecution (\<lambda>d. d) 100 t) = 0"
    by (simp add: init)
  then show ?thesis by (simp add: t_def)
qed

subsection \<open>Injection\<close>






text \<open>
  \<^bold>\<open>Claim C10.\<close> \<open>sendMarketData\<close> never uses its \<open>volume\<close> argument: two calls that differ
  only in the volume leave the same harness state (device inputs, cycle counter, trace and
  every session counter), for every device.
\<close>

theorem sendMarketData_volume_noninterference:
  "sendMarketData ev symbol_code price volume1 msg_type t =
   sendMarketData ev symbol_code price volume2 msg_type t"
  by (simp add: sendMarketData_def)

subsection \<open>Entity codes\<close>

lemma char_to_uint32_ascii:
  assumes "(of_char c :: nat) < 128"
  shows "char_to_uint32 c = ucast (of_char c :: 8 word)"
proof -
  have "(of_char c :: 8 word) = of_nat (of_char c)"
    by (simp add: of_nat_of_char)
  moreover have "\<not> bit (of_char c :: nat) 7"
    using assms by (simp add: bit_iff_odd)
  ultimately have "\<not> bit (of_char c :: 8 word) 7"
    by (simp add: bit_of_nat_iff del: of_nat_of_char)
  then have low: "n < 7" if "bit (of_char c :: 8 word) n" for n
    using that bit_imp_le_length [OF that] by (cases "n = 7") auto
  show ?thesis
    unfolding char_to_uint32_def
    by (intro bit_word_eqI) (auto simp: bit_simps min_def dest: low split: if_splits)
qed

lemma pack_symbol_Nil: "pack_symbol [] = 0"
  by (simp add: pack_symbol_def pack_symbol_loop.simps)
lemma pack_symbol_1: "pack_symbol [a] = push_bit 24 (char_to_uint32 a)"
  by (simp add: pack_symbol_def pack_symbol_loop.simps)
lemma pack_symbol_2: "pack_symbol [a, b] = push_bit 24 (char_to_uint32 a) OR push_bit 16 (char_to_uint32 b)"
  by (simp add: pack_symbol_def pack_symbol_loop.simps)
lemma pack_symbol_3: "pack_symbol [a, b, c] = push_bit 24 (char_to_uint32 a) OR push_bit 16 (char_to_uint32 b) OR push_bit 8 (char_to_uint32 c)"
  by (simp add: pack_symbol_def pack_symbol_loop.simps ac_simps)
lemma pack_symbol_4: "pack_symbol (a # b # c # d # r) = push_bit 24 (char_to_uint32 a) OR push_bit 16 (char_to_uint32 b) OR push_bit 8 (char_to_uint32 c) OR char_to_uint32 d"
  by (simp add: pack_symbol_def pack_symbol_loop.simps ac_simps)

lemma shifted_bytes_word_cat:
  fixes a b c d :: "8 word"
  shows "push_bit 24 (ucast a) OR push_bit 16 (ucast b) OR push_bit 8 (ucast c) OR ucast d
     = (word_cat (word_cat a b :: 16 word) (word_cat c d :: 16 word) :: 32 word)"
  by (rule bit_word_eqI) (auto simp: bit_simps dest: bit_imp_le_length)

text \<open>
  \<^bold>\<open>Claim C6\<close>, as stated, gives \<open>0x41415054\<close> for \<open>AAPL\<close>. Packing the four characters
  \<open>A A P L\<close> (\<open>41 41 50 4C\<close>) gives \<open>0x4141504C\<close>, which is what the harness computes; the
  literal \<open>0x41415054\<close> in the generator's table spells \<open>AAPT\<close>.
\<close>

theorem pack_symbol_AAPL_counterexample:
  "pack_symbol ''AAPL'' = 0x4141504C \<and> pack_symbol ''AAPL'' \<noteq> 0x41415054 \<and>
   map_of generator_symbols ''AAPL'' = Some 0x41415054"
  by (simp add: pack_symbol_def pack_symbol_loop.simps char_to_uint32_def generator_symbols_def)

text \<open>
  \<^bold>\<open>Claim C6, amended.\<close> For a symbol whose first four characters are ASCII, the code is
  the big-endian packing of its first (up to) four characters, the first one in the most
  significant byte and zero bytes after a shorter symbol; in particular \<open>AAPL\<close> yields
  \<open>0x4141504C\<close>, and that is the code the harness holds for its first symbol.
\<close>

theorem pack_symbol_big_endian:
  assumes "\<forall>c \<in> set (take 4 symbol). (of_char c :: nat) < 128"
  shows "pack_symbol symbol =
           word_cat (word_cat (symbol_byte symbol 0) (symbol_byte symbol 1) :: 16 word)
                    (word_cat (symbol_byte symbol 2) (symbol_byte symbol 3) :: 16 word) \<and>
         pack_symbol ''AAPL'' = 0x4141504C \<and>
         symbol_codes (new_FPGATradingSystemTest dev) = map pack_symbol symbols \<and>
         symbol_codes (new_FPGATradingSystemTest dev) ! 0 = 0x4141504C"
proof -
  have general: "pack_symbol symbol =
           word_cat (word_cat (symbol_byte symbol 0) (symbol_byte symbol 1) :: 16 word)
                    (word_cat (symbol_byte symbol 2) (symbol_byte symbol 3) :: 16 word)"
  proof -
  have z: "ucast (0 :: 8 word) = (0 :: 32 word)" by simp
  consider "symbol = []" | a where "symbol = [a]" | a b where "symbol = [a, b]"
    | a b c where "symbol = [a, b, c]" | a b c d r where "symbol = a # b # c # d # r"
    by (metis list.exhaust)
  then show ?thesis
  proof cases
    case 1
    then show ?thesis
      using shifted_bytes_word_cat [of 0 0 0 0] by (simp add: pack_symbol_Nil symbol_byte_def)
  next
    case 2
    with assms have "char_to_uint32 a = ucast (of_char a :: 8 word)"
      by (simp add: char_to_uint32_ascii)
    then show ?thesis
      using 2 shifted_bytes_word_cat [of "of_char a" 0 0 0] by (simp add: pack_symbol_1 symbol_byte_def)
  next
    case 3
    with assms have "char_to_uint32 a = ucast (of_char a :: 8 word)"
      "char_to_uint32 b = ucast (of_char b :: 8 word)"
      by (simp_all add: char_to_uint32_ascii)
    then show ?thesis
      using 3 shifted_bytes_word_cat [of "of_char a" "of_char b" 0 0] by (simp add: pack_symbol_2 symbol_byte_def)
  next
    case 4
    with assms have "char_to_uint32 a = ucast (of_char a :: 8 word)"
      "char_to_uint32 b = ucast (of_char b :: 8 word)"
      "char_to_uint32 c = ucast (of_char c :: 8 word)"
      by (simp_all add: char_to_uint32_ascii)
    then show ?thesis
      using 4 shifted_bytes_word_cat [of "of_char a" "of_char b" "of_char c" 0] by (simp add: pack_symbol_3 symbol_byte_def)
  next
    case 5
    with assms have "char_to_uint32 a = ucast (of_char a :: 8 word)"
      "char_to_uint32 b = ucast (of_char b :: 8 word)"
      "char_to_uint32 c = ucast (of_char c :: 8 word)"
      "char_to_uint32 d = ucast (of_char d :: 8 word)"
      by (simp_all add: char_to_uint32_ascii)
    then show ?thesis
      using 5 shifted_bytes_word_cat [of "of_char a" "of_char b" "of_char c" "of_char d"]
      by (simp add: pack_symbol_4 symbol_byte_def)
  qed
  qed
  have aapl: "pack_symbol ''AAPL'' = 0x4141504C"
    by (simp add: pack_symbol_def pack_symbol_loop.simps char_to_uint32_def)
  have codes: "symbol_codes (new_FPGATradingSystemTest dev) = map pack_symbol symbols"
    by (simp add: new_FPGATradingSystemTest_def initializeSymbolCodes_def symbols_def)
  then have "symbol_codes (new_FPGATradingSystemTest dev) ! 0 = pack_symbol ''AAPL''"
    by (simp add: symbols_def)
  with general aapl codes show ?thesis by simp
qed

theorem pack_symbol_big_endian_witness:
  "pack_symbol ''MSFT'' =
     word_cat (word_cat (0x4D :: 8 word) (0x53 :: 8 word) :: 16 word)
              (word_cat (0x46 :: 8 word) (0x54 :: 8 word) :: 16 word)"
proof -
  have "\<forall>c \<in> set (take 4 ''MSFT''). (of_char c :: nat) < 128"
    by simp
  from pack_symbol_big_endian [OF this, where dev = "\<lparr>clk = False, rst_n = True,
      market_data_valid = False, market_data_in = 0, market_data_type = 0,
      order_execution_valid = False, internals = ()\<rparr>"]
  show ?thesis
    by (simp add: symbol_byte_def)
qed

section \<open>Properties of the pricing unit and of the bridge\<close>

subsection \<open>One evaluation\<close>

lemma trig_again [simp]:
  "VactTriggered (eval_triggers_act (eval_triggers_act m\<lparr>VnbaTriggered := x\<rparr>)) = 0"
  by (simp add: eval_triggers_act_def)

lemma act_loop_0:
  "act_loop 0 m =
     Some ((eval_triggers_act m)\<lparr>VactTriggered := 0,
        VnbaTriggered := VnbaTriggered m OR VactTriggered (eval_triggers_act m)\<rparr>)"
proof (cases "VactTriggered (eval_triggers_act m) = 0")
  case True
  then show ?thesis
    by (subst act_loop.simps) (simp add: eval_phase_act_def Let_def eval_triggers_act_def)
next
  case False
  then show ?thesis
    apply (subst act_loop.simps)
    apply (simp add: eval_phase_act_def Let_def eval_act_def)
    apply (subst act_loop.simps)
    apply (simp add: eval_phase_act_def Let_def eval_act_def)
    apply (simp add: eval_triggers_act_def)
    done
qed

lemma nba_sequent_triggers [simp]:
  "VnbaTriggered (nba_sequent m) = VnbaTriggered m"
  "VactTriggered (nba_sequent m) = VactTriggered m"
  "Vtrigprevexpr_clk (nba_sequent m) = Vtrigprevexpr_clk m"
  "Vtrigprevexpr_rst_n (nba_sequent m) = Vtrigprevexpr_rst_n m"
  "Vm_didInit (nba_sequent m) = Vm_didInit m"
  "clk (nba_sequent m) = clk m"
  "rst_n (nba_sequent m) = rst_n m"
  "calculate_en (nba_sequent m) = calculate_en m"
  "mid_price (nba_sequent m) = mid_price m"
  "inventory (nba_sequent m) = inventory m"
  "volatility (nba_sequent m) = volatility m"
  by (simp_all add: nba_sequent_def Let_def split: prod.splits)

lemma eval_nba_fields [simp]:
  "VnbaTriggered (eval_nba m) = VnbaTriggered m"
  "VactTriggered (eval_nba m) = VactTriggered m"
  "Vtrigprevexpr_clk (eval_nba m) = Vtrigprevexpr_clk m"
  "Vtrigprevexpr_rst_n (eval_nba m) = Vtrigprevexpr_rst_n m"
  "Vm_didInit (eval_nba m) = Vm_didInit m"
  "clk (eval_nba m) = clk m"
  "rst_n (eval_nba m) = rst_n m"
  "calculate_en (eval_nba m) = calculate_en m"
  "mid_price (eval_nba m) = mid_price m"
  "inventory (eval_nba m) = inventory m"
  "volatility (eval_nba m) = volatility m"
  by (simp_all add: eval_nba_def)

lemma nba_loop_0:
  "nba_loop 0 m =
     (let m2 = eval_triggers_act m;
          nb = VnbaTriggered m2 OR VactTriggered m2;
          m3 = m2\<lparr>VactTriggered := 0, VnbaTriggered := nb\<rparr>;
          m4 = (if nb \<noteq> 0 then eval_nba m3 else m3)
      in Some (m4\<lparr>VnbaTriggered := 0\<rparr>))"
proof (cases "VnbaTriggered m OR VactTriggered (eval_triggers_act m) = 0")
  case True
  then show ?thesis
    by (subst nba_loop.simps) (simp add: act_loop_0 eval_phase_nba_def Let_def eval_triggers_act_def)
next
  case False
  then show ?thesis
    apply (subst nba_loop.simps)
    apply (simp add: act_loop_0 eval_phase_nba_def Let_def)
    apply (subst nba_loop.simps)
    apply (simp add: act_loop_0 eval_phase_nba_def Let_def)
    apply (simp add: eval_triggers_act_def)
    done
qed

lemma Vhjb_eval_closed_form: "Vhjb_eval m = Some (eval_closed_form m)"
  by (simp add: Vhjb_eval_def eval_closed_form_def nba_loop_0 Let_def)



lemma nba_sequent_bookkeeping:
  "nba_sequent (m\<lparr>VactTriggered := a\<rparr>) = (nba_sequent m)\<lparr>VactTriggered := a\<rparr>"
  "nba_sequent (m\<lparr>VnbaTriggered := b\<rparr>) = (nba_sequent m)\<lparr>VnbaTriggered := b\<rparr>"
  "nba_sequent (m\<lparr>Vtrigprevexpr_clk := c\<rparr>) = (nba_sequent m)\<lparr>Vtrigprevexpr_clk := c\<rparr>"
  "nba_sequent (m\<lparr>Vtrigprevexpr_rst_n := d\<rparr>) = (nba_sequent m)\<lparr>Vtrigprevexpr_rst_n := d\<rparr>"
  by (simp_all add: nba_sequent_def Let_def)

lemma eval_first:
  assumes "\<not> Vm_didInit m" "VnbaTriggered m = 0"
  shows "Vhjb_eval m = Some (m\<lparr>Vtrigprevexpr_clk := clk m, Vtrigprevexpr_rst_n := rst_n m,
           VactTriggered := 0, Vm_didInit := True\<rparr>)"
  using assms
  by (simp add: Vhjb_eval_closed_form eval_closed_form_def eval_static_def eval_triggers_act_def)

lemma eval_quiet:
  assumes "Vm_didInit m" "VnbaTriggered m = 0"
    and "Vtrigprevexpr_clk m \<or> \<not> clk m" "rst_n m \<or> \<not> Vtrigprevexpr_rst_n m"
  shows "Vhjb_eval m = Some (m\<lparr>Vtrigprevexpr_clk := clk m, Vtrigprevexpr_rst_n := rst_n m,
           VactTriggered := 0\<rparr>)"
  using assms
  by (auto simp add: Vhjb_eval_closed_form eval_closed_form_def eval_triggers_act_def)

lemma eval_posedge:
  assumes "Vm_didInit m" "VnbaTriggered m = 0" "clk m" "\<not> Vtrigprevexpr_clk m"
  shows "Vhjb_eval m = Some ((nba_sequent m)\<lparr>Vtrigprevexpr_clk := True,
           Vtrigprevexpr_rst_n := rst_n m, VactTriggered := 0\<rparr>)"
proof -
  have three: "(3 :: 64 word) AND 1 \<noteq> 0" "(3 :: 64 word) AND (1 OR 2) \<noteq> 0"
    "(1 :: 64 word) OR 2 \<noteq> 0"
    by simp_all
  show ?thesis
    using assms three
    by (simp add: Vhjb_eval_closed_form eval_closed_form_def eval_triggers_act_def
        eval_nba_def nba_sequent_bookkeeping)
qed

lemma nba_reset:
  assumes "\<not> rst_n m"
  shows "nba_sequent m = m\<lparr>calculation_done := False, hjb_calculator_state := 0,
     latency_cycles := 0, hjb_calculator_cycle_counter := 0, optimal_bid := 0, optimal_ask := 0\<rparr>"
  using assms by (simp add: nba_sequent_def)

lemma nba_idle:
  assumes "rst_n m" "hjb_calculator_state m = 0"
  shows "nba_sequent m = m\<lparr>calculation_done := False,
     hjb_calculator_state := (if calculate_en m then 1 else 0),
     hjb_calculator_cycle_counter := (if calculate_en m then 1 + hjb_calculator_cycle_counter m else 0)\<rparr>"
  using assms by (simp add: nba_sequent_def)

lemma nba_state_1:
  assumes "rst_n m" "hjb_calculator_state m = 1"
  shows "nba_sequent m = m\<lparr>hjb_calculator_state := 2,
     hjb_calculator_cycle_counter := 1 + hjb_calculator_cycle_counter m,
     hjb_calculator_reservation_price := mid_price m - push_bit 10 (ucast (inventory m))\<rparr>"
  using assms by (simp add: nba_sequent_def)

lemma nba_state_2:
  assumes "rst_n m" "hjb_calculator_state m = 2"
  shows "nba_sequent m = m\<lparr>hjb_calculator_state := 3,
     hjb_calculator_cycle_counter := 1 + hjb_calculator_cycle_counter m,
     hjb_calculator_spread := drop_bit 7 (mid_price m)\<rparr>"
  using assms by (simp add: nba_sequent_def)

lemma nba_state_3:
  assumes "rst_n m" "hjb_calculator_state m = 3"
  shows "nba_sequent m = m\<lparr>hjb_calculator_state := 4,
     hjb_calculator_cycle_counter := 1 + hjb_calculator_cycle_counter m,
     optimal_bid := hjb_calculator_reservation_price m - drop_bit 1 (hjb_calculator_spread m),
     optimal_ask := hjb_calculator_reservation_price m + drop_bit 1 (hjb_calculator_spread m)\<rparr>"
  using assms by (simp add: nba_sequent_def)

lemma nba_state_4:
  assumes "rst_n m" "hjb_calculator_state m = 4"
  shows "nba_sequent m = m\<lparr>calculation_done := True,
     hjb_calculator_state := (if calculate_en m then 4 else 0),
     latency_cycles := hjb_calculator_cycle_counter m\<rparr>"
  using assms by (simp add: nba_sequent_def)

lemma hjb_init_fresh:
  assumes "hjb_module w = None"
  shows "hjb_init r w =
     Some (0, \<lparr>hjb_module = Some (r\<lparr>clk := True, rst_n := True, calculate_en := False,
        calculation_done := False, hjb_calculator_state := 0, Vtrigprevexpr_clk := True,
        Vtrigprevexpr_rst_n := True, latency_cycles := 0, hjb_calculator_cycle_counter := 0,
        optimal_bid := 0, optimal_ask := 0, VactTriggered := 0, VnbaTriggered := 0,
        Vm_didInit := True\<rparr>), main_time = main_time w + 5\<rparr>)"
  using assms
  by (simp add: hjb_init_def hjb_init_with_def new_Vhjb_calculator_def
      reset_clock_loop.simps eval_first eval_quiet eval_posedge nba_reset)


lemma hjb_calculate_first:
  "hjb_calculate mid_bits inventory_bits vol_bits res \<lparr>hjb_module = Some (after_hjb_init r), main_time = t\<rparr> =
     Some (0,
       res\<lparr>bid := mid_bits - push_bit 10 (ucast inventory_bits) - drop_bit 1 (drop_bit 7 mid_bits),
           ask := mid_bits - push_bit 10 (ucast inventory_bits) + drop_bit 1 (drop_bit 7 mid_bits),
           latency_ns := 16\<rparr>,
       \<lparr>hjb_module = Some ((after_hjb_init r)\<lparr>calculation_done := True,
            hjb_calculator_state := 4, latency_cycles := 4, hjb_calculator_cycle_counter := 4,
            mid_price := mid_bits, inventory := inventory_bits, volatility := vol_bits,
            optimal_bid := mid_bits - push_bit 10 (ucast inventory_bits) - drop_bit 1 (drop_bit 7 mid_bits),
            optimal_ask := mid_bits - push_bit 10 (ucast inventory_bits) + drop_bit 1 (drop_bit 7 mid_bits),
            hjb_calculator_reservation_price := mid_bits - push_bit 10 (ucast inventory_bits),
            hjb_calculator_spread := drop_bit 7 mid_bits\<rparr>),
         main_time = t + 10\<rparr>)"
  by (simp add: hjb_calculate_def hjb_calculate_with_def after_hjb_init_def
      clock_until_done.simps eval_quiet eval_posedge
      nba_idle nba_state_1 nba_state_2 nba_state_3 nba_state_4)


lemma eval_closed_form_fields:
  "Vm_didInit (eval_closed_form m)"
  "VnbaTriggered (eval_closed_form m) = 0"
  "Vtrigprevexpr_clk (eval_closed_form m) = clk m"
  "Vtrigprevexpr_rst_n (eval_closed_form m) = rst_n m"
  "clk (eval_closed_form m) = clk m"
  "rst_n (eval_closed_form m) = rst_n m"
  "calculate_en (eval_closed_form m) = calculate_en m"
  "mid_price (eval_closed_form m) = mid_price m"
  "inventory (eval_closed_form m) = inventory m"
  "volatility (eval_closed_form m) = volatility m"
  by (simp_all add: eval_closed_form_def Let_def eval_triggers_act_def eval_static_def)

lemma Vhjb_eval_settled:
  assumes "Vhjb_eval m = Some m'"
  shows "settled m'"
  using assms by (auto simp: Vhjb_eval_closed_form settled_def eval_closed_form_fields)

lemma Vhjb_eval_calculate_en:
  assumes "Vhjb_eval m = Some m'"
  shows "calculate_en m' = calculate_en m"
  using assms by (auto simp: Vhjb_eval_closed_form eval_closed_form_fields)

lemma Vhjb_eval_total: "Vhjb_eval m \<noteq> None"
  by (simp add: Vhjb_eval_closed_form)

lemma eval_settled_no_edge:
  assumes "settled m"
  shows "Vhjb_eval (m\<lparr>mid_price := a, inventory := b, volatility := c, calculate_en := e\<rparr>) =
           Some (m\<lparr>mid_price := a, inventory := b, volatility := c, calculate_en := e,
                   VactTriggered := 0\<rparr>)"
    and "Vhjb_eval (m\<lparr>calculate_en := e\<rparr>) = Some (m\<lparr>calculate_en := e, VactTriggered := 0\<rparr>)"
  using assms by (simp_all add: settled_def eval_quiet)

subsection \<open>The wait loop of the bridge\<close>

lemma clock_until_done_invariant:
  assumes "\<And>m m'. I m \<Longrightarrow> ev (m\<lparr>clk := \<not> clk m\<rparr>) = Some m' \<Longrightarrow> I m'"
    and "I m"
    and "clock_until_done ev start_time (m, t) = Some (m', t')"
  shows "I m'"
  using assms
proof (induction ev start_time "(m, t)" arbitrary: m t rule: clock_until_done.induct)
  case (1 ev start_time m t)
  show ?case
  proof (cases "\<not> calculation_done m \<and> t - start_time < 1000")
    case True
    with "1.prems"(3) obtain m1 where ev: "ev (m\<lparr>clk := \<not> clk m\<rparr>) = Some m1"
      and rest: "clock_until_done ev start_time (m1, t + 1) = Some (m', t')"
      by (subst (asm) clock_until_done.simps) (auto split: option.splits)
    from "1.prems"(2) ev have "I m1" by (rule "1.prems"(1))
    show ?thesis
    proof (rule "1.hyps" [OF True ev])
      show "\<And>m m'. I m \<Longrightarrow> ev (m\<lparr>clk := \<not> clk m\<rparr>) = Some m' \<Longrightarrow> I m'"
        by (rule "1.prems"(1))
      show "I m1" by fact
      show "clock_until_done ev start_time (m1, t + 1) = Some (m', t')" by (rule rest)
    qed
  next
    case False
    with "1.prems"(3) have "m' = m"
      by (subst (asm) clock_until_done.simps) auto
    with "1.prems"(2) show ?thesis by simp
  qed
qed

lemma clock_until_done_bound:
  assumes "unat (t - start_time) \<le> 1000"
    and "clock_until_done ev start_time (m, t) = Some (m', t')"
  shows "unat (t' - start_time) \<le> 1000 \<and> (calculation_done m' \<or> t' - start_time = 1000)"
  using assms
proof (induction ev start_time "(m, t)" arbitrary: m t rule: clock_until_done.induct)
  case (1 ev start_time m t)
  show ?case
  proof (cases "\<not> calculation_done m \<and> t - start_time < 1000")
    case True
    with "1.prems"(2) obtain m1 where ev: "ev (m\<lparr>clk := \<not> clk m\<rparr>) = Some m1"
      and rest: "clock_until_done ev start_time (m1, t + 1) = Some (m', t')"
      by (subst (asm) clock_until_done.simps) (auto split: option.splits)
    from True have lt: "t - start_time < 1000" by simp
    have "unat (t - start_time + 1) = Suc (unat (t - start_time))"
      by (rule unat_Suc_less [OF lt])
    moreover have "t + 1 - start_time = t - start_time + 1" by simp
    ultimately have "unat (t + 1 - start_time) = Suc (unat (t - start_time))"
      by (simp only:)
    moreover have "unat (t - start_time) < 1000"
      using lt by (simp add: word_less_nat_alt)
    ultimately have "unat (t + 1 - start_time) \<le> 1000" by simp
    from "1.hyps" [OF True ev this rest] show ?thesis .
  next
    case False
    with "1.prems"(2) have eq: "m' = m" "t' = t"
      by (subst (asm) clock_until_done.simps, auto)+
    from False have "calculation_done m \<or> \<not> t - start_time < 1000" by simp
    moreover have "t - start_time = 1000" if "\<not> t - start_time < 1000"
    proof -
      from that have "1000 \<le> unat (t - start_time)"
        by (simp add: word_less_nat_alt)
      with "1.prems"(1) have "unat (t - start_time) = unat (1000 :: 64 word)" by simp
      then show ?thesis by (rule word_unat_eq_iff [THEN iffD2])
    qed
    ultimately show ?thesis using eq "1.prems"(1) by auto
  qed
qed

lemma clock_until_done_total:
  assumes "\<And>m. ev m \<noteq> None"
  shows "clock_until_done ev start_time (m, t) \<noteq> None"
  using assms
proof (induction ev start_time "(m, t)" arbitrary: m t rule: clock_until_done.induct)
  case (1 ev start_time m t)
  show ?case
  proof (cases "\<not> calculation_done m \<and> t - start_time < 1000")
    case True
    from "1.prems" obtain m1 where ev: "ev (m\<lparr>clk := \<not> clk m\<rparr>) = Some m1"
      by (meson option.exhaust)
    have "clock_until_done ev start_time (m1, t + 1) \<noteq> None"
    proof (rule "1.hyps" [OF True ev])
      show "\<And>m. ev m \<noteq> None" by (rule "1.prems")
    qed
    with True ev show ?thesis
      by (subst clock_until_done.simps) simp
  next
    case False
    then show ?thesis by (subst clock_until_done.simps) auto
  qed
qed

subsection \<open>The bridge's calls\<close>


lemma hjb_init_after_hjb_init:
  assumes "hjb_module w = None"
  shows "hjb_init r w = Some (0, \<lparr>hjb_module = Some (after_hjb_init r), main_time = main_time w + 5\<rparr>)"
  using hjb_init_fresh [OF assms] by (simp add: after_hjb_init_def)

lemma hjb_calculate_with_live:
  assumes "hjb_module w = Some m"
  shows "hjb_calculate_with ev mid_bits inventory_bits vol_bits result w =
     do {
       m2 \<leftarrow> ev (m\<lparr>mid_price := mid_bits, inventory := inventory_bits,
                   volatility := vol_bits, calculate_en := True\<rparr>);
       (m3, t3) \<leftarrow> clock_until_done ev (main_time w) (m2, main_time w);
       if calculation_done m3
       then do {
         m4 \<leftarrow> ev (m3\<lparr>calculate_en := False\<rparr>);
         Some (0, result\<lparr>bid := optimal_bid m3, ask := optimal_ask m3,
                 latency_ns := latency_cycles m3 * 4\<rparr>,
               \<lparr>hjb_module = Some m4, main_time = t3\<rparr>) }
       else Some (- 1, result, \<lparr>hjb_module = Some m3, main_time = t3\<rparr>)
     }"
  using assms by (simp add: hjb_calculate_with_def Let_def cong: if_cong)

lemma hjb_calculate_with_no_handle:
  assumes "hjb_module w = None"
  shows "hjb_calculate_with ev mid_bits inventory_bits vol_bits result w = Some (- 1, result, w)"
  using assms by (simp add: hjb_calculate_with_def)

text \<open>
  Whatever the device, a call on a live handle advances \<open>main_time\<close> by at most 1000, and a
  call that does not succeed returns \<open>-1\<close> after exactly 1000 toggles with the result
  untouched. A call returns unless an evaluation ends the process.
\<close>

lemma hjb_calculate_with_bounded:
  assumes "hjb_module w = Some m"
    and "\<And>x y. ev x = Some y \<Longrightarrow> calculate_en y = calculate_en x"
  shows "((\<forall>x. ev x \<noteq> None) \<longrightarrow>
            hjb_calculate_with ev mid_bits inventory_bits vol_bits result w \<noteq> None) \<and>
         (\<forall>rc result' w'.
            hjb_calculate_with ev mid_bits inventory_bits vol_bits result w = Some (rc, result', w') \<longrightarrow>
              unat (main_time w' - main_time w) \<le> 1000 \<and>
              (rc = 0 \<or>
               rc = - 1 \<and> result' = result \<and> main_time w' - main_time w = 1000 \<and>
               (\<exists>m'. hjb_module w' = Some m' \<and> calculate_en m' \<and> \<not> calculation_done m')))"
proof (rule conjI; (intro allI)?; rule impI)
  assume total: "\<forall>x. ev x \<noteq> None"
  define m1 where "m1 = m\<lparr>mid_price := mid_bits, inventory := inventory_bits,
    volatility := vol_bits, calculate_en := True\<rparr>"
  from total obtain m2 where m2: "ev m1 = Some m2" by (meson option.exhaust)
  from total have "clock_until_done ev (main_time w) (m2, main_time w) \<noteq> None"
    by (intro clock_until_done_total) simp
  then obtain m3 t3 where loop: "clock_until_done ev (main_time w) (m2, main_time w) = Some (m3, t3)"
    by auto
  from total obtain m4 where m4: "ev (m3\<lparr>calculate_en := False\<rparr>) = Some m4"
    by (meson option.exhaust)
  show "hjb_calculate_with ev mid_bits inventory_bits vol_bits result w \<noteq> None"
    using m2 loop m4 by (simp add: hjb_calculate_with_live [OF assms(1)] m1_def)
next
  fix rc result' w'
  assume run: "hjb_calculate_with ev mid_bits inventory_bits vol_bits result w = Some (rc, result', w')"
  define m1 where "m1 = m\<lparr>mid_price := mid_bits, inventory := inventory_bits,
    volatility := vol_bits, calculate_en := True\<rparr>"
  from run obtain m2 m3 t3 where m2: "ev m1 = Some m2"
    and loop: "clock_until_done ev (main_time w) (m2, main_time w) = Some (m3, t3)"
    and fin: "(if calculation_done m3
          then do {
            m4 \<leftarrow> ev (m3\<lparr>calculate_en := False\<rparr>);
            Some (0, result\<lparr>bid := optimal_bid m3, ask := optimal_ask m3,
                 latency_ns := latency_cycles m3 * 4\<rparr>,
               \<lparr>hjb_module = Some m4, main_time = t3\<rparr>) }
          else Some (- 1, result, \<lparr>hjb_module = Some m3, main_time = t3\<rparr>)) = Some (rc, result', w')"
    by (auto simp: hjb_calculate_with_live [OF assms(1)] m1_def bind_eq_Some_conv)
  from m2 have en2: "calculate_en m2" using assms(2) [OF m2] by (simp add: m1_def)
  have en3: "calculate_en m3"
  proof -
    have step: "calculate_en y" if "calculate_en x" "ev (x\<lparr>clk := \<not> clk x\<rparr>) = Some y" for x y
      using assms(2) [OF that(2)] that(1) by simp
    from step en2 loop show ?thesis
      by (rule clock_until_done_invariant [where I = calculate_en])
  qed
  have bound: "unat (t3 - main_time w) \<le> 1000 \<and> (calculation_done m3 \<or> t3 - main_time w = 1000)"
    by (rule clock_until_done_bound [OF _ loop]) simp
  show "unat (main_time w' - main_time w) \<le> 1000 \<and>
        (rc = 0 \<or>
         rc = - 1 \<and> result' = result \<and> main_time w' - main_time w = 1000 \<and>
         (\<exists>m'. hjb_module w' = Some m' \<and> calculate_en m' \<and> \<not> calculation_done m'))"
  proof (cases "calculation_done m3")
    case True
    with fin bound show ?thesis by (auto simp: bind_eq_Some_conv)
  next
    case False
    with fin bound en3 show ?thesis by auto
  qed
qed

text \<open>A device that never raises \<open>calculation_done\<close> is given 1000 toggles, then the call fails.\<close>

lemma hjb_calculate_with_timeout:
  assumes "hjb_module w = Some m"
    and "\<And>x y. \<not> calculation_done x \<Longrightarrow> ev x = Some y \<Longrightarrow> \<not> calculation_done y"
    and "\<And>x. ev x \<noteq> None"
    and "\<not> calculation_done m"
  shows "\<exists>m'. hjb_calculate_with ev mid_bits inventory_bits vol_bits result w =
           Some (- 1, result, \<lparr>hjb_module = Some m', main_time = main_time w + 1000\<rparr>)"
proof -
  define m1 where "m1 = m\<lparr>mid_price := mid_bits, inventory := inventory_bits,
    volatility := vol_bits, calculate_en := True\<rparr>"
  from assms(3) obtain m2 where m2: "ev m1 = Some m2" by (meson option.exhaust)
  have nd2: "\<not> calculation_done m2"
    by (rule assms(2) [OF _ m2]) (simp add: m1_def assms(4))
  from assms(3) have "clock_until_done ev (main_time w) (m2, main_time w) \<noteq> None"
    by (intro clock_until_done_total) simp
  then obtain m3 t3 where loop: "clock_until_done ev (main_time w) (m2, main_time w) = Some (m3, t3)"
    by auto
  have step: "\<not> calculation_done y"
    if "\<not> calculation_done x" "ev (x\<lparr>clk := \<not> clk x\<rparr>) = Some y" for x y
    by (rule assms(2) [OF _ that(2)]) (simp add: that(1))
  from step nd2 loop have nd3: "\<not> calculation_done m3"
    by (rule clock_until_done_invariant [where I = "\<lambda>m. \<not> calculation_done m"])
  have "unat (t3 - main_time w) \<le> 1000 \<and> (calculation_done m3 \<or> t3 - main_time w = 1000)"
    by (rule clock_until_done_bound [OF _ loop]) simp
  with nd3 have "t3 - main_time w = 1000" by simp
  then have "t3 = main_time w + 1000" by (simp add: algebra_simps)
  with m2 loop nd3 show ?thesis
    by (simp add: hjb_calculate_with_live [OF assms(1)] m1_def)
qed

subsection \<open>The wait loop, toggle by toggle\<close>

lemma elapsed_Suc:
  fixes t start_time :: "64 word"
  assumes "unat (t - start_time) < 1000"
  shows "unat (t + 1 - start_time) = Suc (unat (t - start_time))"
proof -
  from assms have lt: "t - start_time < 1000" by (simp add: word_less_nat_alt)
  have "unat (t - start_time + 1) = Suc (unat (t - start_time))"
    by (rule unat_Suc_less [OF lt])
  moreover have "t + 1 - start_time = t - start_time + 1" by simp
  ultimately show ?thesis by (simp only:)
qed

lemma clock_until_done_toggles:
  assumes "toggles ev k m = Some mk"
    and "\<forall>j<k. running ev m j"
    and "unat (t - start_time) + k \<le> 1000"
    and "calculation_done mk \<or> unat (t - start_time) + k = 1000"
  shows "clock_until_done ev start_time (m, t) = Some (mk, t + of_nat k)"
  using assms
proof (induction k arbitrary: m t)
  case 0
  then have "calculation_done m \<or> \<not> t - start_time < 1000"
    by (auto simp: word_less_nat_alt)
  with 0 show ?case by (subst clock_until_done.simps) auto
next
  case (Suc k)
  from Suc.prems(2) have "running ev m 0" by blast
  then have nd: "\<not> calculation_done m" by (simp add: running_def)
  from Suc.prems(3) have el: "unat (t - start_time) < 1000" by simp
  then have lt: "t - start_time < 1000" by (simp add: word_less_nat_alt)
  from Suc.prems(1) obtain m1 where ev: "ev (m\<lparr>clk := \<not> clk m\<rparr>) = Some m1"
    and rest: "toggles ev k m1 = Some mk"
    by (auto split: option.splits)
  have run: "\<forall>j<k. running ev m1 j"
  proof (intro allI impI)
    fix j assume "j < k"
    then have "running ev m (Suc j)" using Suc.prems(2) by simp
    then show "running ev m1 j" by (simp add: running_def ev)
  qed
  have el': "unat (t + 1 - start_time) = Suc (unat (t - start_time))"
    by (rule elapsed_Suc [OF el])
  have "clock_until_done ev start_time (m1, t + 1) = Some (mk, t + 1 + of_nat k)"
    by (rule Suc.IH [OF rest run]) (use Suc.prems(3,4) el' in simp_all)
  with nd lt ev show ?case
    by (subst clock_until_done.simps) (simp add: add.assoc)
qed

lemma clock_until_done_abort:
  assumes "toggles ev k m = None"
    and "\<forall>j<k. running ev m j"
    and "unat (t - start_time) + k \<le> 1000"
  shows "clock_until_done ev start_time (m, t) = None"
  using assms
proof (induction k arbitrary: m t)
  case 0
  then show ?case by simp
next
  case (Suc k)
  from Suc.prems(2) have "running ev m 0" by blast
  then have nd: "\<not> calculation_done m" by (simp add: running_def)
  from Suc.prems(3) have el: "unat (t - start_time) < 1000" by simp
  then have lt: "t - start_time < 1000" by (simp add: word_less_nat_alt)
  show ?case
  proof (cases "ev (m\<lparr>clk := \<not> clk m\<rparr>)")
    case None
    with nd lt show ?thesis by (subst clock_until_done.simps) simp
  next
    case (Some m1)
    with Suc.prems(1) have rest: "toggles ev k m1 = None" by simp
    have run: "\<forall>j<k. running ev m1 j"
    proof (intro allI impI)
      fix j assume "j < k"
      then have "running ev m (Suc j)" using Suc.prems(2) by simp
      then show "running ev m1 j" by (simp add: running_def Some)
    qed
    have el': "unat (t + 1 - start_time) = Suc (unat (t - start_time))"
      by (rule elapsed_Suc [OF el])
    have "clock_until_done ev start_time (m1, t + 1) = None"
      by (rule Suc.IH [OF rest run]) (use Suc.prems(3) el' in simp)
    with nd lt Some show ?thesis
      by (subst clock_until_done.simps) simp
  qed
qed

lemma toggles_invariant:
  assumes "\<And>x y. I x \<Longrightarrow> ev (x\<lparr>clk := \<not> clk x\<rparr>) = Some y \<Longrightarrow> I y"
    and "I m" and "toggles ev k m = Some m'"
  shows "I m'"
  using assms(2,3)
proof (induction k arbitrary: m)
  case 0
  then show ?case by simp
next
  case (Suc k)
  from Suc.prems(2) obtain m1 where ev: "ev (m\<lparr>clk := \<not> clk m\<rparr>) = Some m1"
    and rest: "toggles ev k m1 = Some m'"
    by (auto split: option.splits)
  from assms(1) [OF Suc.prems(1) ev] rest show ?case by (rule Suc.IH)
qed

lemma toggles_Suc_end:
  "toggles ev (Suc k) m =
     (case toggles ev k m of None \<Rightarrow> None | Some m' \<Rightarrow> ev (m'\<lparr>clk := \<not> clk m'\<rparr>))"
proof (induction k arbitrary: m)
  case 0
  show ?case by (simp split: option.splits)
next
  case (Suc k)
  show ?case
  proof (cases "ev (m\<lparr>clk := \<not> clk m\<rparr>)")
    case None
    then show ?thesis by simp
  next
    case (Some m1)
    have e: "toggles ev (Suc k) m = toggles ev k m1" using Some by simp
    have "toggles ev (Suc (Suc k)) m = toggles ev (Suc k) m1"
      by (simp only: toggles.simps(2) [of ev "Suc k" m] Some option.case)
    also have "\<dots> = (case toggles ev k m1 of None \<Rightarrow> None
                      | Some m' \<Rightarrow> ev (m'\<lparr>clk := \<not> clk m'\<rparr>))"
      by (rule Suc.IH)
    finally show ?thesis unfolding e .
  qed
qed

lemma unat_of_nat_32:
  assumes "x < 2 ^ 32"
  shows "unat (of_nat x :: 32 word) = x"
  using assms by (simp add: unat_of_nat)

lemma toggles_edge_counting_device:
  assumes "\<not> clk m" "\<not> Vtrigprevexpr_clk m" "hjb_calculator_cycle_counter m = 0"
    "\<not> calculation_done m" "k < 2 ^ 32"
  shows "toggles (edge_counting_device n) k m =
     Some (m\<lparr>clk := odd k, Vtrigprevexpr_clk := odd k,
             hjb_calculator_cycle_counter := of_nat ((k + 1) div 2),
             calculation_done := (0 < k \<and> n \<le> (k + 1) div 2)\<rparr>)"
  using assms(5)
proof (induction k)
  case 0
  show ?case using assms(1-4) by (cases m) simp
next
  case (Suc k)
  then have k: "k < 2 ^ 32" by simp
  note IH = Suc.IH [OF k]
  show ?case
  proof (cases "even k")
    case True
    then obtain h where h: "k = 2 * h" by (elim evenE)
    have half: "(k + 1) div 2 = h" "(Suc k + 1) div 2 = h + 1"
      by (simp_all add: h)
    have "h + 1 < 2 ^ 32" using k h by simp
    then have u: "unat (of_nat h + 1 :: 32 word) = h + 1"
      using unat_of_nat_32 [of "h + 1"] by (simp add: add.commute)
    show ?thesis
      using True
      by (simp only: toggles_Suc_end IH half) (simp add: edge_counting_device_def u)
  next
    case False
    then obtain h where h: "k = 2 * h + 1" by (elim oddE)
    have half: "(k + 1) div 2 = h + 1" "(Suc k + 1) div 2 = h + 1"
      by (simp_all add: h)
    show ?thesis
      using False
      by (simp only: toggles_Suc_end IH half) (simp add: edge_counting_device_def h)
  qed
qed

lemma edge_counting_device_running:
  assumes "\<not> clk m" "\<not> Vtrigprevexpr_clk m" "hjb_calculator_cycle_counter m = 0"
    "\<not> calculation_done m" "k < 2 ^ 32" "(k + 1) div 2 < n"
  shows "running (edge_counting_device n) m k"
  using assms(6) by (simp add: running_def toggles_edge_counting_device [OF assms(1-5)])

lemma edge_counting_device_timeout:
  "hjb_calculate_with (edge_counting_device 600) mid_bits inventory_bits vol_bits result
     \<lparr>hjb_module = Some zero_reset, main_time = t\<rparr> =
   Some (- 1, result,
     \<lparr>hjb_module = Some (zero_reset\<lparr>mid_price := mid_bits, inventory := inventory_bits,
        volatility := vol_bits, calculate_en := True, hjb_calculator_cycle_counter := 500\<rparr>),
      main_time = t + 1000\<rparr>)"
proof -
  let ?dev = "edge_counting_device 600"
  define m1 where "m1 = zero_reset\<lparr>mid_price := mid_bits, inventory := inventory_bits,
        volatility := vol_bits, calculate_en := True\<rparr>"
  have init: "\<not> clk m1" "\<not> Vtrigprevexpr_clk m1" "hjb_calculator_cycle_counter m1 = 0"
    "\<not> calculation_done m1"
    by (simp_all add: m1_def zero_reset_def)
  have start: "?dev m1 = Some m1"
    by (simp add: edge_counting_device_def m1_def zero_reset_def)
  have k: "(1000 :: nat) < 2 ^ 32" by simp
  have last: "toggles ?dev 1000 m1 = Some (m1\<lparr>hjb_calculator_cycle_counter := 500\<rparr>)"
    unfolding toggles_edge_counting_device [OF init k]
    by (simp add: m1_def zero_reset_def)
  have run: "\<forall>j<1000. running ?dev m1 j"
  proof (intro allI impI)
    fix j :: nat assume "j < 1000"
    then have "j < 2 ^ 32" "(j + 1) div 2 < 600" by simp_all
    then show "running ?dev m1 j" by (rule edge_counting_device_running [OF init])
  qed
  have "clock_until_done ?dev t (m1, t) = Some (m1\<lparr>hjb_calculator_cycle_counter := 500\<rparr>, t + of_nat 1000)"
    by (rule clock_until_done_toggles [OF last run]) simp_all
  then have loop: "clock_until_done ?dev t (m1, t) = Some (m1\<lparr>hjb_calculator_cycle_counter := 500\<rparr>, t + 1000)"
    by simp
  have live: "hjb_module \<lparr>hjb_module = Some zero_reset, main_time = t\<rparr> = Some zero_reset" by simp
  show ?thesis
    using start loop init(4)
    by (simp add: hjb_calculate_with_live [OF live] m1_def [symmetric])
qed

lemma toggles_pricing_unit:
  fixes r :: Vhjb_calculator and mid_bits vol_bits :: "64 word" and inventory_bits :: "32 word"
  defines "m1 \<equiv> (after_hjb_init r)\<lparr>mid_price := mid_bits, inventory := inventory_bits,
     volatility := vol_bits, calculate_en := True\<rparr>"
  shows "Vhjb_eval m1 = Some m1"
    and "\<forall>j<10. running Vhjb_eval m1 j"
    and "\<exists>mk. toggles Vhjb_eval 10 m1 = Some mk \<and> calculation_done mk \<and>
           optimal_bid mk = mid_bits - push_bit 10 (ucast inventory_bits) - drop_bit 1 (drop_bit 7 mid_bits) \<and>
           optimal_ask mk = mid_bits - push_bit 10 (ucast inventory_bits) + drop_bit 1 (drop_bit 7 mid_bits) \<and>
           latency_cycles mk = 4"
proof -
  show "Vhjb_eval m1 = Some m1"
    by (simp add: m1_def after_hjb_init_def eval_quiet)
  have ten: "(10 :: nat) = Suc (Suc (Suc (Suc (Suc (Suc (Suc (Suc (Suc (Suc 0)))))))))"
    by simp
  show "\<forall>j<10. running Vhjb_eval m1 j"
    unfolding ten
    by (simp add: All_less_Suc running_def m1_def after_hjb_init_def eval_quiet eval_posedge
        nba_idle nba_state_1 nba_state_2 nba_state_3 nba_state_4)
  show "\<exists>mk. toggles Vhjb_eval 10 m1 = Some mk \<and> calculation_done mk \<and>
           optimal_bid mk = mid_bits - push_bit 10 (ucast inventory_bits) - drop_bit 1 (drop_bit 7 mid_bits) \<and>
           optimal_ask mk = mid_bits - push_bit 10 (ucast inventory_bits) + drop_bit 1 (drop_bit 7 mid_bits) \<and>
           latency_cycles mk = 4"
    unfolding ten
    by (simp add: push_bit_eq_mult m1_def after_hjb_init_def eval_quiet eval_posedge
        nba_idle nba_state_1 nba_state_2 nba_state_3 nba_state_4)
qed

text \<open>
  \<^bold>\<open>Claim C5\<close>, as stated, puts the bound of the wait at 1000 cycles. The loop counts
  \<open>main_time\<close>, which advances once per clock toggle, so it gives up after 1000 toggles,
  which are 500 clock cycles. A device that raises \<open>calculation_done\<close> at its 600th rising
  clock edge (after 1199 toggles, within 1000 cycles) is not waited for: the call returns
  \<open>-1\<close> with \<open>main_time\<close> advanced by 1000 and the device's cycle counter at 500.
\<close>

theorem hjb_calculate_bound_counterexample:
  "hjb_calculate_with (edge_counting_device 600) 0x4062C00000000000 0 0x3F947AE147AE147B
     \<lparr>bid = 0, ask = 0, latency_ns = 0\<rparr> \<lparr>hjb_module = Some zero_reset, main_time = 0\<rparr> =
   Some (- 1, \<lparr>bid = 0, ask = 0, latency_ns = 0\<rparr>,
     \<lparr>hjb_module = Some (zero_reset\<lparr>mid_price := 0x4062C00000000000, inventory := 0,
        volatility := 0x3F947AE147AE147B, calculate_en := True,
        hjb_calculator_cycle_counter := 500\<rparr>),
      main_time = 1000\<rparr>) \<and>
   map_option calculation_done (toggles (edge_counting_device 600) 1198 zero_reset) = Some False \<and>
   map_option calculation_done (toggles (edge_counting_device 600) 1199 zero_reset) = Some True"
proof -
  have init: "\<not> clk zero_reset" "\<not> Vtrigprevexpr_clk zero_reset"
    "hjb_calculator_cycle_counter zero_reset = 0" "\<not> calculation_done zero_reset"
    by (simp_all add: zero_reset_def)
  have k: "(1198 :: nat) < 2 ^ 32" "(1199 :: nat) < 2 ^ 32" by simp_all
  show ?thesis
    by (simp add: edge_counting_device_timeout toggles_edge_counting_device [OF init k(1)]
        toggles_edge_counting_device [OF init k(2)])
qed

text \<open>
  \<^bold>\<open>Claim C5, amended.\<close> For every device behaviour (that leaves \<open>calculate_en\<close> as driven, as
  a verilated model does with its inputs), \<open>hjb_calculate\<close> on a live handle terminates:
  after the evaluation that presents the request it toggles the clock, evaluating after
  each toggle, until \<open>calculation_done\<close> is seen or 1000 toggles (500 clock cycles) have
  been made. If \<open>calculation_done\<close> is first seen after \<open>k \<le> 1000\<close> toggles, the call makes
  exactly \<open>k\<close> (\<open>main_time\<close> advances by \<open>k\<close>), reads the result from the device at that
  point, lowers \<open>calculate_en\<close>, evaluates and returns 0. If it is not seen after any of the
  first 1000 toggles, the call makes exactly 1000, returns the failure code \<open>-1\<close>, leaves
  the result untouched and leaves \<open>calculate_en\<close> asserted. The only way not to return is
  an evaluation that itself ends the process.
\<close>

theorem hjb_calculate_clocks_until_done:
  assumes "hjb_module w = Some m"
    and "\<forall>x y. ev x = Some y \<longrightarrow> calculate_en y = calculate_en x"
  shows
    "(\<forall>m1 k mk.
        ev (m\<lparr>mid_price := mid_bits, inventory := inventory_bits, volatility := vol_bits,
              calculate_en := True\<rparr>) = Some m1 \<and>
        k \<le> 1000 \<and> (\<forall>j<k. running ev m1 j) \<and>
        toggles ev k m1 = Some mk \<and> calculation_done mk \<longrightarrow>
        hjb_calculate_with ev mid_bits inventory_bits vol_bits result w =
          do { m' \<leftarrow> ev (mk\<lparr>calculate_en := False\<rparr>);
               Some (0, result\<lparr>bid := optimal_bid mk, ask := optimal_ask mk,
                                latency_ns := latency_cycles mk * 4\<rparr>,
                     \<lparr>hjb_module = Some m', main_time = main_time w + of_nat k\<rparr>) }) \<and>
     (\<forall>m1.
        ev (m\<lparr>mid_price := mid_bits, inventory := inventory_bits, volatility := vol_bits,
              calculate_en := True\<rparr>) = Some m1 \<and>
        (\<forall>j\<le>1000. running ev m1 j) \<longrightarrow>
        (\<exists>m'. toggles ev 1000 m1 = Some m' \<and> calculate_en m' \<and> \<not> calculation_done m' \<and>
           hjb_calculate_with ev mid_bits inventory_bits vol_bits result w =
             Some (- 1, result, \<lparr>hjb_module = Some m', main_time = main_time w + 1000\<rparr>))) \<and>
     (\<forall>m1 k.
        ev (m\<lparr>mid_price := mid_bits, inventory := inventory_bits, volatility := vol_bits,
              calculate_en := True\<rparr>) = Some m1 \<and>
        k \<le> 1000 \<and> (\<forall>j<k. running ev m1 j) \<and> toggles ev k m1 = None \<longrightarrow>
        hjb_calculate_with ev mid_bits inventory_bits vol_bits result w = None) \<and>
     (ev (m\<lparr>mid_price := mid_bits, inventory := inventory_bits, volatility := vol_bits,
              calculate_en := True\<rparr>) = None \<longrightarrow>
        hjb_calculate_with ev mid_bits inventory_bits vol_bits result w = None) \<and>
     ((\<forall>x. ev x \<noteq> None) \<longrightarrow>
        hjb_calculate_with ev mid_bits inventory_bits vol_bits result w \<noteq> None) \<and>
     (\<forall>rc result' w'.
        hjb_calculate_with ev mid_bits inventory_bits vol_bits result w = Some (rc, result', w') \<longrightarrow>
          unat (main_time w' - main_time w) \<le> 1000 \<and>
          (rc = 0 \<or>
           rc = - 1 \<and> result' = result \<and> main_time w' - main_time w = 1000 \<and>
           (\<exists>m'. hjb_module w' = Some m' \<and> calculate_en m' \<and> \<not> calculation_done m')))"
proof -
  let ?m0 = "m\<lparr>mid_price := mid_bits, inventory := inventory_bits, volatility := vol_bits,
              calculate_en := True\<rparr>"
  let ?call = "hjb_calculate_with ev mid_bits inventory_bits vol_bits result w"
  note live = hjb_calculate_with_live [OF assms(1)]
  have keeps: "calculate_en y = calculate_en x" if "ev x = Some y" for x y
    using assms(2) that by blast
  have zero: "unat (main_time w - main_time w) = 0" by simp
  have success: "?call =
          do { m' \<leftarrow> ev (mk\<lparr>calculate_en := False\<rparr>);
               Some (0, result\<lparr>bid := optimal_bid mk, ask := optimal_ask mk,
                                latency_ns := latency_cycles mk * 4\<rparr>,
                     \<lparr>hjb_module = Some m', main_time = main_time w + of_nat k\<rparr>) }"
    if "ev ?m0 = Some m1" "k \<le> 1000" "\<forall>j<k. running ev m1 j"
      "toggles ev k m1 = Some mk" "calculation_done mk" for m1 k mk
  proof -
    have "clock_until_done ev (main_time w) (m1, main_time w) = Some (mk, main_time w + of_nat k)"
      by (rule clock_until_done_toggles [OF that(4,3)]) (use that(2,5) in \<open>simp_all add: zero\<close>)
    with that(1,5) show ?thesis by (simp add: live)
  qed
  have timeout: "\<exists>m'. toggles ev 1000 m1 = Some m' \<and> calculate_en m' \<and> \<not> calculation_done m' \<and>
           ?call = Some (- 1, result, \<lparr>hjb_module = Some m', main_time = main_time w + 1000\<rparr>)"
    if "ev ?m0 = Some m1" "\<forall>j\<le>1000. running ev m1 j" for m1
  proof -
    from that(2) have "running ev m1 1000" by simp
    then obtain m' where t: "toggles ev 1000 m1 = Some m'" and nd: "\<not> calculation_done m'"
      by (auto simp: running_def split: option.splits)
    have run: "\<forall>j<1000. running ev m1 j" using that(2) by simp
    have "clock_until_done ev (main_time w) (m1, main_time w) = Some (m', main_time w + of_nat 1000)"
      by (rule clock_until_done_toggles [OF t run]) (simp_all add: zero)
    then have loop: "clock_until_done ev (main_time w) (m1, main_time w) = Some (m', main_time w + 1000)"
      by simp
    have en1: "calculate_en m1" using keeps [OF that(1)] by simp
    have step: "calculate_en y" if "calculate_en x" "ev (x\<lparr>clk := \<not> clk x\<rparr>) = Some y" for x y
      using keeps [OF that(2)] that(1) by simp
    from step en1 t have en: "calculate_en m'"
      by (rule toggles_invariant [where I = calculate_en])
    from that(1) loop nd have "?call = Some (- 1, result, \<lparr>hjb_module = Some m', main_time = main_time w + 1000\<rparr>)"
      by (simp add: live)
    with t en nd show ?thesis by blast
  qed
  have abort: "?call = None"
    if "ev ?m0 = Some m1" "k \<le> 1000" "\<forall>j<k. running ev m1 j" "toggles ev k m1 = None" for m1 k
  proof -
    have "clock_until_done ev (main_time w) (m1, main_time w) = None"
      by (rule clock_until_done_abort [OF that(4,3)]) (use that(2) in \<open>simp add: zero\<close>)
    with that(1) show ?thesis by (simp add: live)
  qed
  have abort0: "?call = None" if "ev ?m0 = None"
    using that by (simp add: live)
  have old: "((\<forall>x. ev x \<noteq> None) \<longrightarrow> ?call \<noteq> None) \<and>
     (\<forall>rc result' w'.
        ?call = Some (rc, result', w') \<longrightarrow>
          unat (main_time w' - main_time w) \<le> 1000 \<and>
          (rc = 0 \<or>
           rc = - 1 \<and> result' = result \<and> main_time w' - main_time w = 1000 \<and>
           (\<exists>m'. hjb_module w' = Some m' \<and> calculate_en m' \<and> \<not> calculation_done m')))"
  proof (rule hjb_calculate_with_bounded [OF assms(1)])
    fix x y assume "ev x = Some y"
    then show "calculate_en y = calculate_en x" by (rule keeps)
  qed
  show ?thesis
  proof (intro conjI allI impI)
    fix m1 k mk
    assume "ev ?m0 = Some m1 \<and> k \<le> 1000 \<and> (\<forall>j<k. running ev m1 j) \<and>
        toggles ev k m1 = Some mk \<and> calculation_done mk"
    then have h: "ev ?m0 = Some m1" "k \<le> 1000" "\<forall>j<k. running ev m1 j"
      "toggles ev k m1 = Some mk" "calculation_done mk" by simp_all
    show "?call =
          do { m' \<leftarrow> ev (mk\<lparr>calculate_en := False\<rparr>);
               Some (0, result\<lparr>bid := optimal_bid mk, ask := optimal_ask mk,
                                latency_ns := latency_cycles mk * 4\<rparr>,
                     \<lparr>hjb_module = Some m', main_time = main_time w + of_nat k\<rparr>) }"
      by (rule success [OF h])
  next
    fix m1
    assume "ev ?m0 = Some m1 \<and> (\<forall>j\<le>1000. running ev m1 j)"
    then have h: "ev ?m0 = Some m1" "\<forall>j\<le>1000. running ev m1 j" by simp_all
    show "\<exists>m'. toggles ev 1000 m1 = Some m' \<and> calculate_en m' \<and> \<not> calculation_done m' \<and>
           ?call = Some (- 1, result, \<lparr>hjb_module = Some m', main_time = main_time w + 1000\<rparr>)"
      by (rule timeout [OF h])
  next
    fix m1 k
    assume "ev ?m0 = Some m1 \<and> k \<le> 1000 \<and> (\<forall>j<k. running ev m1 j) \<and> toggles ev k m1 = None"
    then have h: "ev ?m0 = Some m1" "k \<le> 1000" "\<forall>j<k. running ev m1 j" "toggles ev k m1 = None"
      by simp_all
    show "?call = None" by (rule abort [OF h])
  next
    assume "ev ?m0 = None"
    then show "?call = None" by (rule abort0)
  next
    assume tot: "\<forall>x. ev x \<noteq> None"
    from old [THEN conjunct1] tot show "?call \<noteq> None" by (rule mp)
  next
    fix rc result' w'
    assume c: "?call = Some (rc, result', w')"
    from old [THEN conjunct2, rule_format, OF c]
    show "unat (main_time w' - main_time w) \<le> 1000" by (rule conjunct1)
    from old [THEN conjunct2, rule_format, OF c]
    show "rc = 0 \<or>
           rc = - 1 \<and> result' = result \<and> main_time w' - main_time w = 1000 \<and>
           (\<exists>m'. hjb_module w' = Some m' \<and> calculate_en m' \<and> \<not> calculation_done m')"
      by (rule conjunct2)
  qed
qed

text \<open>
  C5 at a device that raises \<open>calculation_done\<close> only at its 600th clock cycle (a timeout
  after 1000 toggles), and at the pricing unit as \<open>hjb_init\<close> leaves it (done after 10).
\<close>

theorem hjb_calculate_clocks_until_done_witness:
  "(\<exists>m'. hjb_calculate_with (edge_counting_device 600) 0x4062C00000000000 0 0x3F947AE147AE147B
            \<lparr>bid = 0, ask = 0, latency_ns = 0\<rparr> \<lparr>hjb_module = Some zero_reset, main_time = 7\<rparr> =
          Some (- 1, \<lparr>bid = 0, ask = 0, latency_ns = 0\<rparr>,
                \<lparr>hjb_module = Some m', main_time = 1007\<rparr>) \<and>
          calculate_en m' \<and> \<not> calculation_done m') \<and>
   (\<exists>m'. hjb_calculate_with Vhjb_eval 0x4062C00000000000 0 0x3F947AE147AE147B
            \<lparr>bid = 0, ask = 0, latency_ns = 0\<rparr>
            \<lparr>hjb_module = Some (after_hjb_init zero_reset), main_time = 5\<rparr> =
          Some (0, \<lparr>bid = 0x40225D4000000000, ask = 0x40A322C000000000, latency_ns = 16\<rparr>,
                \<lparr>hjb_module = Some m', main_time = 15\<rparr>))"
proof (rule conjI)
  let ?res = "\<lparr>bid = 0, ask = 0, latency_ns = 0\<rparr>"
  let ?dev = "edge_counting_device 600"
  let ?w = "\<lparr>hjb_module = Some zero_reset, main_time = 7\<rparr>"
  define m1 where "m1 = zero_reset\<lparr>mid_price := 0x4062C00000000000, inventory := 0,
        volatility := 0x3F947AE147AE147B, calculate_en := True\<rparr>"
  have live: "hjb_module ?w = Some zero_reset" by simp
  have en: "\<forall>x y. ?dev x = Some y \<longrightarrow> calculate_en y = calculate_en x"
    by (auto simp: edge_counting_device_def split: if_splits)
  have init: "\<not> clk m1" "\<not> Vtrigprevexpr_clk m1" "hjb_calculator_cycle_counter m1 = 0"
    "\<not> calculation_done m1"
    by (simp_all add: m1_def zero_reset_def)
  have start: "?dev m1 = Some m1"
    by (simp add: edge_counting_device_def m1_def zero_reset_def)
  have run: "\<forall>j\<le>1000. running ?dev m1 j"
  proof (intro allI impI)
    fix j :: nat assume "j \<le> 1000"
    then have "j < 2 ^ 32" "(j + 1) div 2 < 600" by simp_all
    then show "running ?dev m1 j" by (rule edge_counting_device_running [OF init])
  qed
  have "\<exists>m'. toggles ?dev 1000 m1 = Some m' \<and> calculate_en m' \<and> \<not> calculation_done m' \<and>
           hjb_calculate_with ?dev 0x4062C00000000000 0 0x3F947AE147AE147B ?res ?w =
             Some (- 1, ?res, \<lparr>hjb_module = Some m', main_time = main_time ?w + 1000\<rparr>)"
    using hjb_calculate_clocks_until_done [OF live en, where mid_bits = "0x4062C00000000000"
        and inventory_bits = 0 and vol_bits = "0x3F947AE147AE147B" and result = ?res,
        THEN conjunct2, THEN conjunct1, rule_format, of m1]
      start run
    by (simp add: m1_def)
  then show "\<exists>m'. hjb_calculate_with ?dev 0x4062C00000000000 0 0x3F947AE147AE147B ?res ?w =
          Some (- 1, ?res, \<lparr>hjb_module = Some m', main_time = 1007\<rparr>) \<and>
          calculate_en m' \<and> \<not> calculation_done m'"
    by auto
next
  let ?res = "\<lparr>bid = 0, ask = 0, latency_ns = 0\<rparr>"
  let ?w = "\<lparr>hjb_module = Some (after_hjb_init zero_reset), main_time = 5\<rparr>"
  define m1 where "m1 = (after_hjb_init zero_reset)\<lparr>mid_price := 0x4062C00000000000,
     inventory := 0, volatility := 0x3F947AE147AE147B, calculate_en := True\<rparr>"
  have live: "hjb_module ?w = Some (after_hjb_init zero_reset)" by simp
  have en: "\<forall>x y. Vhjb_eval x = Some y \<longrightarrow> calculate_en y = calculate_en x"
    using Vhjb_eval_calculate_en by blast
  note unit = toggles_pricing_unit [where r = zero_reset and mid_bits = "0x4062C00000000000"
      and inventory_bits = 0 and vol_bits = "0x3F947AE147AE147B", folded m1_def]
  from unit(3) obtain mk where mk: "toggles Vhjb_eval 10 m1 = Some mk" "calculation_done mk"
    "optimal_bid mk = 0x40225D4000000000" "optimal_ask mk = 0x40A322C000000000"
    "latency_cycles mk = 4"
    by auto
  obtain m' where last: "Vhjb_eval (mk\<lparr>calculate_en := False\<rparr>) = Some m'"
    using Vhjb_eval_total by (meson option.exhaust)
  have "hjb_calculate_with Vhjb_eval 0x4062C00000000000 0 0x3F947AE147AE147B ?res ?w =
          do { m' \<leftarrow> Vhjb_eval (mk\<lparr>calculate_en := False\<rparr>);
               Some (0, ?res\<lparr>bid := optimal_bid mk, ask := optimal_ask mk,
                                latency_ns := latency_cycles mk * 4\<rparr>,
                     \<lparr>hjb_module = Some m', main_time = main_time ?w + of_nat 10\<rparr>) }"
    using hjb_calculate_clocks_until_done [OF live en, where mid_bits = "0x4062C00000000000"
        and inventory_bits = 0 and vol_bits = "0x3F947AE147AE147B" and result = ?res,
        THEN conjunct1, rule_format, of m1 10 mk]
      unit(1,2) mk(1,2)
    by (simp add: m1_def)
  then show "\<exists>m'. hjb_calculate_with Vhjb_eval 0x4062C00000000000 0 0x3F947AE147AE147B ?res ?w =
          Some (0, \<lparr>bid = 0x40225D4000000000, ask = 0x40A322C000000000, latency_ns = 16\<rparr>,
                \<lparr>hjb_module = Some m', main_time = 15\<rparr>)"
    by (simp add: last mk(3-5))
qed

subsection \<open>The pricing scenario\<close>







subsection \<open>A second request\<close>

text \<open>
  \<^bold>\<open>Claim C9.\<close> After a call of \<open>hjb_calculate\<close> that returned 0, whatever the device held
  before it, \<open>calculation_done\<close> is still asserted: the call ends by lowering \<open>calculate_en\<close>
  and evaluating without a clock edge, which runs no clocked process. A call that follows
  at once, with any arguments and any result structure, therefore leaves its wait loop
  without a single clock toggle (\<open>main_time\<close> and \<open>clk\<close> are unchanged), returns 0 and
  writes the bid, the ask and the latency of the previous request.
\<close>

theorem hjb_calculate_stale_result:
  assumes "hjb_calculate mid1 inv1 vol1 result0 w = Some (0, result1, w1)"
  shows "\<exists>m1 w2 m2.
           hjb_module w1 = Some m1 \<and> calculation_done m1 \<and>
           hjb_calculate mid2 inv2 vol2 result w1 = Some (0, result1, w2) \<and>
           main_time w2 = main_time w1 \<and>
           hjb_module w2 = Some m2 \<and> clk m2 = clk m1 \<and> calculation_done m2"
proof -
  from assms obtain m where live: "hjb_module w = Some m"
    by (cases "hjb_module w") (auto simp: hjb_calculate_def hjb_calculate_with_no_handle)
  obtain m2 where ev2: "Vhjb_eval (m\<lparr>mid_price := mid1, inventory := inv1,
    volatility := vol1, calculate_en := True\<rparr>) = Some m2"
    by (simp add: Vhjb_eval_closed_form)
  have s2: "settled m2"
    using ev2 by (rule Vhjb_eval_settled)
  from assms ev2 have run: "clock_until_done Vhjb_eval (main_time w) (m2, main_time w) \<bind>
      (\<lambda>(m3, t3).
       if calculation_done m3
       then do {
         m4 \<leftarrow> Vhjb_eval (m3\<lparr>calculate_en := False\<rparr>);
         Some (0, result0\<lparr>bid := optimal_bid m3, ask := optimal_ask m3,
                 latency_ns := latency_cycles m3 * 4\<rparr>,
               \<lparr>hjb_module = Some m4, main_time = t3\<rparr>) }
       else Some (- 1, result0, \<lparr>hjb_module = Some m3, main_time = t3\<rparr>)) = Some (0 :: int, result1, w1)"
    by (simp add: hjb_calculate_def hjb_calculate_with_live [OF live])
  then obtain m3 t3 where
    loop: "clock_until_done Vhjb_eval (main_time w) (m2, main_time w) = Some (m3, t3)"
    by (cases "clock_until_done Vhjb_eval (main_time w) (m2, main_time w)") auto
  from run have fin: "(if calculation_done m3
       then do {
         m4 \<leftarrow> Vhjb_eval (m3\<lparr>calculate_en := False\<rparr>);
         Some (0, result0\<lparr>bid := optimal_bid m3, ask := optimal_ask m3,
                 latency_ns := latency_cycles m3 * 4\<rparr>,
               \<lparr>hjb_module = Some m4, main_time = t3\<rparr>) }
       else Some (- 1, result0, \<lparr>hjb_module = Some m3, main_time = t3\<rparr>)) = Some (0 :: int, result1, w1)"
    unfolding loop by simp
  have step: "settled y" if "settled x" "Vhjb_eval (x\<lparr>clk := \<not> clk x\<rparr>) = Some y" for x y
    using that(2) by (rule Vhjb_eval_settled)
  from step s2 loop have s3: "settled m3"
    by (rule clock_until_done_invariant [where I = settled])
  from fin have done3: "calculation_done m3"
    by (auto split: if_splits)
  define m4 where "m4 = m3\<lparr>calculate_en := False, VactTriggered := 0\<rparr>"
  have ev4: "Vhjb_eval (m3\<lparr>calculate_en := False\<rparr>) = Some m4"
    unfolding m4_def by (rule eval_settled_no_edge(2) [OF s3])
  from fin done3 ev4 have r1: "result1 = result0\<lparr>bid := optimal_bid m3, ask := optimal_ask m3,
                 latency_ns := latency_cycles m3 * 4\<rparr>"
    and w1: "w1 = \<lparr>hjb_module = Some m4, main_time = t3\<rparr>"
    by simp_all
  have s4: "settled m4"
    using ev4 by (rule Vhjb_eval_settled)
  define m5 where "m5 = m4\<lparr>mid_price := mid2, inventory := inv2, volatility := vol2,
    calculate_en := True, VactTriggered := 0\<rparr>"
  have ev5: "Vhjb_eval (m4\<lparr>mid_price := mid2, inventory := inv2, volatility := vol2,
    calculate_en := True\<rparr>) = Some m5"
    unfolding m5_def by (rule eval_settled_no_edge(1) [OF s4])
  have done5: "calculation_done m5"
    by (simp add: m5_def m4_def done3)
  then have loop5: "clock_until_done Vhjb_eval t3 (m5, t3) = Some (m5, t3)"
    by (subst clock_until_done.simps) simp
  have s5: "settled m5"
    using ev5 by (rule Vhjb_eval_settled)
  define m6 where "m6 = m5\<lparr>calculate_en := False, VactTriggered := 0\<rparr>"
  have ev6: "Vhjb_eval (m5\<lparr>calculate_en := False\<rparr>) = Some m6"
    unfolding m6_def by (rule eval_settled_no_edge(2) [OF s5])
  have out: "optimal_bid m5 = optimal_bid m3" "optimal_ask m5 = optimal_ask m3"
    "latency_cycles m5 = latency_cycles m3"
    by (simp_all add: m5_def m4_def)
  have same: "result\<lparr>bid := optimal_bid m3, ask := optimal_ask m3,
                 latency_ns := latency_cycles m3 * 4\<rparr> = result1"
    unfolding r1 by simp
  have second: "hjb_calculate mid2 inv2 vol2 result w1 =
      Some (0, result1, \<lparr>hjb_module = Some m6, main_time = t3\<rparr>)"
  proof -
    have live1: "hjb_module \<lparr>hjb_module = Some m4, main_time = t3\<rparr> = Some m4"
      by simp
    show ?thesis
      using ev5 loop5 done5 ev6 same
      by (simp add: hjb_calculate_def hjb_calculate_with_live [OF live1] w1 out)
  qed
  show ?thesis
    apply (rule exI [of _ m4])
    apply (rule exI [of _ "\<lparr>hjb_module = Some m6, main_time = t3\<rparr>"])
    apply (rule exI [of _ m6])
    apply (simp add: second)
    apply (simp add: w1 m6_def m5_def m4_def done3)
    done
qed

text \<open>
  C9 after the pricing scenario: a request for mid price 100.0 and inventory 7 is answered
  with the bid and ask computed for 150.0.
\<close>

theorem hjb_calculate_stale_result_witness:
  "\<exists>result1 w1 w2.
     hjb_calculate 0x4062C00000000000 0 0x3F947AE147AE147B \<lparr>bid = 0, ask = 0, latency_ns = 0\<rparr>
       \<lparr>hjb_module = Some (after_hjb_init zero_reset), main_time = 5\<rparr> = Some (0, result1, w1) \<and>
     hjb_calculate 0x4059000000000000 7 0 \<lparr>bid = 0, ask = 0, latency_ns = 0\<rparr> w1 =
       Some (0, result1, w2) \<and>
     result1 = \<lparr>bid = 0x40225D4000000000, ask = 0x40A322C000000000, latency_ns = 16\<rparr> \<and>
     main_time w1 = 15 \<and> main_time w2 = 15"
proof -
  let ?res = "\<lparr>bid = 0, ask = 0, latency_ns = 0\<rparr>"
  let ?w = "\<lparr>hjb_module = Some (after_hjb_init zero_reset), main_time = 5\<rparr>"
  obtain result1 w1 where first: "hjb_calculate 0x4062C00000000000 0 0x3F947AE147AE147B ?res ?w
      = Some (0, result1, w1)"
    and r1: "result1 = \<lparr>bid = 0x40225D4000000000, ask = 0x40A322C000000000, latency_ns = 16\<rparr>"
    and t1: "main_time w1 = 15"
    by (simp add: hjb_calculate_first)
  from hjb_calculate_stale_result [OF first, of "0x4059000000000000" 7 0 ?res]
  obtain w2 where "hjb_calculate 0x4059000000000000 7 0 ?res w1 = Some (0, result1, w2)"
    and "main_time w2 = main_time w1"
    by blast
  with first r1 t1 show ?thesis by auto
qed

subsection \<open>No live handle\<close>

text \<open>
  \<^bold>\<open>Claim C8\<close>, as stated, has the call without a handle report a code distinct from the
  timeout's. Both report \<open>-1\<close>: here the call without a handle, and a call that times out
  after 1000 clock toggles on a device that never answers.
\<close>

theorem hjb_calculate_failure_codes_counterexample:
  "map_option fst (hjb_calculate_with (\<lambda>m. Some m) 0x4062C00000000000 0 0x3F947AE147AE147B
       \<lparr>bid = 0, ask = 0, latency_ns = 0\<rparr> \<lparr>hjb_module = None, main_time = 0\<rparr>) = Some (- 1) \<and>
   map_option (\<lambda>(rc, result, w). (rc, main_time w, hjb_module w \<noteq> None))
     (hjb_calculate_with (\<lambda>m. Some m) 0x4062C00000000000 0 0x3F947AE147AE147B
       \<lparr>bid = 0, ask = 0, latency_ns = 0\<rparr> \<lparr>hjb_module = Some zero_reset, main_time = 0\<rparr>)
     = Some (- 1, 1000, True)"
proof -
  let ?res = "\<lparr>bid = 0, ask = 0, latency_ns = 0\<rparr>"
  let ?w = "\<lparr>hjb_module = Some zero_reset, main_time = 0\<rparr>"
  have live: "hjb_module ?w = Some zero_reset" by simp
  have "\<not> calculation_done zero_reset" by (simp add: zero_reset_def)
  then have "\<exists>m'. hjb_calculate_with (\<lambda>m. Some m) 0x4062C00000000000 0 0x3F947AE147AE147B ?res ?w =
      Some (- 1, ?res, \<lparr>hjb_module = Some m', main_time = main_time ?w + 1000\<rparr>)"
    by (intro hjb_calculate_with_timeout [OF live]) simp_all
  then show ?thesis
    by (auto simp: hjb_calculate_with_no_handle)
qed

text \<open>
  \<^bold>\<open>Claim C8, amended.\<close> Without a live handle (before \<open>hjb_init\<close>, or after \<open>hjb_cleanup\<close>,
  which always leaves no handle) \<open>hjb_calculate\<close> returns \<open>-1\<close> and changes nothing: neither
  the handle, nor the time counter, nor the result structure. Only that call fails: an
  \<open>hjb_init\<close> after it succeeds and the calculation that follows returns 0. The code \<open>-1\<close>
  is the one a timeout returns as well.
\<close>

theorem hjb_calculate_without_handle:
  assumes "hjb_module w = None"
  shows "hjb_calculate_with ev mid_bits inventory_bits vol_bits result w = Some (- 1, result, w) \<and>
         hjb_module (hjb_cleanup w') = None \<and>
         hjb_calculate_with ev mid_bits inventory_bits vol_bits result (hjb_cleanup w') =
           Some (- 1, result, hjb_cleanup w') \<and>
         (\<exists>w1 result' w2. hjb_init r w = Some (0, w1) \<and>
            hjb_calculate mid_bits inventory_bits vol_bits result w1 = Some (0, result', w2)) \<and>
         (\<exists>m'. hjb_calculate_with (\<lambda>m. Some m) mid_bits inventory_bits vol_bits result
                  \<lparr>hjb_module = Some zero_reset, main_time = t\<rparr> =
               Some (- 1, result, \<lparr>hjb_module = Some m', main_time = t + 1000\<rparr>))"
proof -
  have cleaned: "hjb_module (hjb_cleanup w') = None"
    by (simp add: hjb_cleanup_def split: option.splits)
  have later: "\<exists>w1 result' w2. hjb_init r w = Some (0, w1) \<and>
            hjb_calculate mid_bits inventory_bits vol_bits result w1 = Some (0, result', w2)"
    by (simp add: hjb_init_after_hjb_init [OF assms] hjb_calculate_first)
  let ?w = "\<lparr>hjb_module = Some zero_reset, main_time = t\<rparr>"
  have live: "hjb_module ?w = Some zero_reset" by simp
  have "\<not> calculation_done zero_reset" by (simp add: zero_reset_def)
  then have "\<exists>m'. hjb_calculate_with (\<lambda>m. Some m) mid_bits inventory_bits vol_bits result ?w =
      Some (- 1, result, \<lparr>hjb_module = Some m', main_time = main_time ?w + 1000\<rparr>)"
    by (intro hjb_calculate_with_timeout [OF live]) simp_all
  then have timeout: "\<exists>m'. hjb_calculate_with (\<lambda>m. Some m) mid_bits inventory_bits vol_bits result ?w =
      Some (- 1, result, \<lparr>hjb_module = Some m', main_time = t + 1000\<rparr>)"
    by simp
  from later timeout show ?thesis
    by (simp add: hjb_calculate_with_no_handle [OF assms] hjb_calculate_with_no_handle [OF cleaned] cleaned)
qed

text \<open>C8 at the wrapper before its first \<open>hjb_init\<close>.\<close>

theorem hjb_calculate_without_handle_witness:
  "hjb_calculate 0x4062C00000000000 0 0x3F947AE147AE147B \<lparr>bid = 0, ask = 0, latency_ns = 0\<rparr>
     \<lparr>hjb_module = None, main_time = 0\<rparr> =
     Some (- 1, \<lparr>bid = 0, ask = 0, latency_ns = 0\<rparr>, \<lparr>hjb_module = None, main_time = 0\<rparr>)"
proof -
  have "hjb_module \<lparr>hjb_module = None, main_time = 0\<rparr> = None" by simp
  from hjb_calculate_without_handle [OF this, of Vhjb_eval] show ?thesis
    by (simp add: hjb_calculate_def)
qed

section \<open>The two reset protocols\<close>












section \<open>Properties of the latency statistics\<close>

subsection \<open>The number of samples\<close>

text \<open>The sampling loop adds at most one sample per iteration, so at most 1000 in all.\<close>

lemma latency_samples_loop_length:
  assumes "latency_samples_loop ev i (t, latencies) = Some (t', latencies')"
    and "0 \<le> i"
  shows "length latencies' \<le> length latencies + nat (1000 - i)"
  using assms
proof (induction "nat (1000 - i)" arbitrary: i t latencies)
  case 0
  then have "\<not> i < 1000" by simp
  with "0.prems"(1) show ?case
    by (subst (asm) latency_samples_loop.simps) simp
next
  case (Suc n)
  then have lt: "i < 1000" by simp
  from Suc.prems(1) lt obtain code where code: "vector_at (symbol_codes t) 0 = Some code"
    by (subst (asm) latency_samples_loop.simps) (auto simp: bind_eq_Some_conv)
  define t1 where "t1 = waitForExecution ev 100
    (sendMarketData ev code (0x96000000 + word_of_int i) 0x64000000 0x41 t)"
  define l1 where "l1 = (if order_execution_valid (dut t1)
                       then latencies @ [cycle_count t1 - cycle_count t] else latencies)"
  define t2 where "t2 = for_range 0 5 (clockCycle ev) t1"
  from Suc.prems(1) lt code
  have rest: "latency_samples_loop ev (i + 1) (t2, l1) = Some (t', latencies')"
    by (subst (asm) latency_samples_loop.simps)
      (simp add: Let_def t1_def l1_def t2_def split del: if_split cong: if_cong)
  from Suc.hyps(2) have n: "n = nat (1000 - (i + 1))" by simp
  have "length latencies' \<le> length l1 + nat (1000 - (i + 1))"
    by (rule Suc.hyps(1) [OF n rest]) (use Suc.prems(2) in simp)
  moreover have "length l1 \<le> length latencies + 1" by (simp add: l1_def)
  ultimately show ?case using lt Suc.prems(2) by linarith
qed

lemma runLatencyBenchmark_samples:
  assumes "latency_samples_loop ev 0 (t, []) = Some (t', latencies)"
  shows "length latencies < 2 ^ 40"
proof -
  have "length latencies \<le> 1000"
    using latency_samples_loop_length [OF assms] by simp
  then show ?thesis by simp
qed

subsection \<open>Rounding to a double\<close>

lemma pow_bounds_rat:
  fixes a :: int and la :: nat
  assumes "0 < a" "2 ^ (la - 1) \<le> nat a \<and> nat a < 2 ^ la"
  shows "(2 :: rat) ^ (la - 1) \<le> of_int a" "of_int a < (2 :: rat) ^ la"
proof -
  from assms have "(2 :: int) ^ (la - 1) \<le> a" "a < 2 ^ la"
    by (simp_all add: le_nat_iff nat_less_iff)
  then have "(of_int ((2 :: int) ^ (la - 1)) :: rat) \<le> of_int a" "(of_int a :: rat) < of_int (2 ^ la)"
    by (simp_all only: of_int_le_iff of_int_less_iff)
  then show "(2 :: rat) ^ (la - 1) \<le> of_int a" "of_int a < (2 :: rat) ^ la"
    by simp_all
qed

lemma floorlog_pos: "0 < n \<Longrightarrow> 1 \<le> floorlog 2 n"
  by (simp add: floorlog_def)

lemma quotient_bounds:
  fixes a b :: rat and la lb :: nat
  assumes "2 ^ (la - 1) \<le> a" "a < 2 ^ la" "2 ^ (lb - 1) \<le> b" "b < 2 ^ lb" "1 \<le> la" "1 \<le> lb"
  shows "a / b < 2 powi (int la - int lb + 1)" "2 powi (int la - int lb - 1) < a / b"
proof -
  have bpos: "0 < b" using assms(3) by (meson less_le_trans zero_less_numeral zero_less_power)
  have apos: "0 < a" using assms(1) by (meson less_le_trans zero_less_numeral zero_less_power)
  have e1: "(2 :: rat) powi (int la - int lb + 1) = 2 ^ la / 2 ^ (lb - 1)"
  proof -
    have "int la - int lb + 1 = int la - int (lb - 1)" using assms(6) by simp
    then have "(2 :: rat) powi (int la - int lb + 1) = 2 powi (int la - int (lb - 1))"
      by (rule arg_cong)
    also have "\<dots> = 2 powi int la / 2 powi int (lb - 1)"
      by (rule power_int_diff) simp
    finally show ?thesis by (simp only: power_int_of_nat)
  qed
  have e2: "(2 :: rat) powi (int la - int lb - 1) = 2 ^ (la - 1) / 2 ^ lb"
  proof -
    have "int la - int lb - 1 = int (la - 1) - int lb" using assms(5) by simp
    then have "(2 :: rat) powi (int la - int lb - 1) = 2 powi (int (la - 1) - int lb)"
      by (rule arg_cong)
    also have "\<dots> = 2 powi int (la - 1) / 2 powi int lb"
      by (rule power_int_diff) simp
    finally show ?thesis by (simp only: power_int_of_nat)
  qed
  have "a / b < 2 ^ la / b" using assms(2) bpos by (simp add: divide_strict_right_mono)
  also have "\<dots> \<le> 2 ^ la / 2 ^ (lb - 1)" using assms(3) by (simp add: frac_le)
  finally show "a / b < 2 powi (int la - int lb + 1)" by (simp only: e1)
  have "2 ^ (la - 1) / 2 ^ lb < 2 ^ (la - 1) / b"
    using assms(4) bpos by (simp add: frac_less2)
  also have "\<dots> \<le> a / b" using assms(1) bpos by (simp add: divide_right_mono)
  finally show "2 powi (int la - int lb - 1) < a / b" by (simp only: e2)
qed

lemma round_half_even_close: "\<bar>of_int (round_half_even s) - s\<bar> \<le> 1 / 2"
proof -
  have "of_int \<lfloor>s\<rfloor> \<le> s" "s < of_int \<lfloor>s\<rfloor> + 1" by linarith+
  then show ?thesis
    by (auto simp: round_half_even_def Let_def)
qed

lemma round_half_even_unique:
  assumes "\<bar>of_int n - s\<bar> < 1 / 2"
  shows "round_half_even s = n"
proof -
  have "\<bar>of_int (round_half_even s) - s\<bar> \<le> 1 / 2" by (rule round_half_even_close)
  with assms have "\<bar>(of_int (round_half_even s) :: rat) - of_int n\<bar> < 1" by linarith
  then have "\<bar>(of_int (round_half_even s - n) :: rat)\<bar> < 1"
    by simp
  then have "\<bar>round_half_even s - n\<bar> < 1"
    by (simp only: of_int_abs [symmetric] of_int_less_1_iff)
  then show ?thesis by simp
qed

lemma ilog2_bounds:
  assumes "0 < x"
  shows "2 powi (ilog2 x) \<le> x \<and> x < 2 powi (ilog2 x + 1)"
proof -
  obtain a b where q: "quotient_of x = (a, b)" by (cases "quotient_of x")
  then have b: "0 < b" and x: "x = of_int a / of_int b"
    by (simp_all add: quotient_of_denom_pos quotient_of_div)
  with assms have a: "0 < a"
    by (simp add: zero_less_divide_iff)
  define la lb where "la = floorlog 2 (nat a)" and "lb = floorlog 2 (nat b)"
  have fa: "2 ^ (la - 1) \<le> nat a \<and> nat a < 2 ^ la"
    unfolding la_def using a by (intro floorlog_bounds) simp_all
  have fb: "2 ^ (lb - 1) \<le> nat b \<and> nat b < 2 ^ lb"
    unfolding lb_def using b by (intro floorlog_bounds) simp_all
  have la: "1 \<le> la" and lb: "1 \<le> lb"
    unfolding la_def lb_def using a b by (simp_all add: floorlog_def)
  note A = pow_bounds_rat [OF a fa] and B = pow_bounds_rat [OF b fb]
  from quotient_bounds [OF A B la lb]
  have up: "x < 2 powi (int la - int lb + 1)" and lo: "2 powi (int la - int lb - 1) < x"
    by (simp_all add: x)
  show ?thesis
    using lo up by (auto simp: ilog2_def q Let_def la_def lb_def)
qed

lemma ilog2_unique:
  assumes "0 < x" "2 powi e \<le> x" "x < 2 powi (e + 1)"
  shows "ilog2 x = e"
proof -
  from ilog2_bounds [OF assms(1)] have b: "2 powi (ilog2 x) \<le> x" "x < 2 powi (ilog2 x + 1)"
    by simp_all
  have "ilog2 x < e + 1"
  proof (rule ccontr)
    assume "\<not> ilog2 x < e + 1"
    then have "(2 :: rat) powi (e + 1) \<le> 2 powi (ilog2 x)"
      by (intro power_int_increasing) simp_all
    with b(1) assms(3) show False by linarith
  qed
  moreover have "e < ilog2 x + 1"
  proof (rule ccontr)
    assume "\<not> e < ilog2 x + 1"
    then have "(2 :: rat) powi (ilog2 x + 1) \<le> 2 powi e"
      by (intro power_int_increasing) simp_all
    with b(2) assms(2) show False by linarith
  qed
  ultimately show ?thesis by linarith
qed

lemma round_to_double_error:
  assumes "0 < x"
  shows "\<bar>round_to_double x - x\<bar> \<le> x / 2 ^ 53"
proof -
  define k where "k = 52 - ilog2 x"
  define s where "s = x * 2 powi k"
  have p: "(0 :: rat) < 2 powi k" by simp
  from ilog2_bounds [OF assms] have "2 powi (ilog2 x) \<le> x" by simp
  then have "2 powi (ilog2 x) * 2 powi k \<le> s"
    unfolding s_def using p by (simp add: mult_right_mono)
  moreover have "(2 :: rat) powi (ilog2 x) * 2 powi k = 2 powi 52"
    unfolding k_def by (simp add: power_int_add [symmetric])
  ultimately have s52: "2 ^ 52 \<le> s" by simp
  have r: "round_to_double x = of_int (round_half_even s) * 2 powi (- k)"
    using assms by (simp add: round_to_double_def Let_def k_def s_def)
  have xs: "x = s * 2 powi (- k)"
    unfolding s_def by (simp add: power_int_minus field_simps)
  have "round_to_double x - x = (of_int (round_half_even s) - s) * 2 powi (- k)"
    unfolding r using xs by (simp add: algebra_simps)
  then have "\<bar>round_to_double x - x\<bar> = \<bar>of_int (round_half_even s) - s\<bar> * 2 powi (- k)"
    by (simp add: abs_mult)
  also have "\<dots> \<le> 1 / 2 * 2 powi (- k)"
    by (intro mult_right_mono round_half_even_close) simp
  also have "\<dots> \<le> s / 2 ^ 53 * 2 powi (- k)"
    using s52 by (intro mult_right_mono) simp_all
  also have "\<dots> = x / 2 ^ 53"
    using xs by simp
  finally show ?thesis .
qed

lemma round_to_double_exact:
  assumes "0 < x" "x < 2 ^ 53" "\<bar>of_int n - x\<bar> * 2 ^ 54 \<le> x" 
  shows "round_to_double x = of_int n"
proof -
  define k where "k = 52 - ilog2 x"
  define s where "s = x * 2 powi k"
  have p: "(0 :: rat) < 2 powi k" by simp
  from ilog2_bounds [OF assms(1)] have lo: "2 powi (ilog2 x) \<le> x" and up: "x < 2 powi (ilog2 x + 1)"
    by simp_all
  have "ilog2 x < 53"
  proof (rule ccontr)
    assume "\<not> ilog2 x < 53"
    then have "(2 :: rat) powi 53 \<le> 2 powi (ilog2 x)"
      by (intro power_int_increasing) simp_all
    with lo assms(2) show False by simp
  qed
  then have k0: "0 \<le> k" by (simp add: k_def)
  then obtain j where j: "k = int j" using nonneg_int_cases by blast
  have "s < 2 powi (ilog2 x + 1) * 2 powi k"
    unfolding s_def using up p by (simp add: mult_strict_right_mono)
  moreover have "(2 :: rat) powi (ilog2 x + 1) * 2 powi k = 2 powi 53"
    unfolding k_def by (simp add: power_int_add [symmetric])
  ultimately have s53: "s < 2 ^ 53" by simp
  have r: "round_to_double x = of_int (round_half_even s) * 2 powi (- k)"
    using assms by (simp add: round_to_double_def Let_def k_def s_def)
  have grid: "(of_int n :: rat) * 2 powi k = of_int (n * 2 ^ j)"
    by (simp add: j)
  have "of_int (n * 2 ^ j) - s = (of_int n - x) * 2 powi k"
    unfolding grid [symmetric] s_def by (simp add: algebra_simps)
  then have d: "\<bar>of_int (n * 2 ^ j) - s\<bar> = \<bar>of_int n - x\<bar> * 2 powi k"
    by (simp add: abs_mult)
  have "\<bar>of_int n - x\<bar> * 2 ^ 54 * 2 powi k \<le> x * 2 powi k"
    using assms(3) p by (intro mult_right_mono) simp_all
  then have "\<bar>of_int n - x\<bar> * 2 powi k * 2 ^ 54 \<le> s"
    by (simp add: s_def mult.commute mult.left_commute)
  from this s53 have "\<bar>of_int n - x\<bar> * 2 powi k * 2 ^ 54 < 2 ^ 53"
    by (rule le_less_trans)
  then have "\<bar>of_int n - x\<bar> * 2 powi k < 1 / 2"
    by simp
  with d have "\<bar>of_int (n * 2 ^ j) - s\<bar> < 1 / 2" by simp
  then have "round_half_even s = n * 2 ^ j" by (rule round_half_even_unique)
  then have "round_to_double x = of_int (n * 2 ^ j) * 2 powi (- k)"
    by (simp only: r)
  also have "\<dots> = of_int n * (2 powi k * 2 powi (- k))"
    by (simp add: j)
  also have "\<dots> = of_int n"
    by (simp add: power_int_minus)
  finally show ?thesis .
qed

lemma round_to_double_grid:
  assumes "0 < x" "2 powi e \<le> x" "x < 2 powi (e + 1)"
    and "\<bar>of_int n - x * 2 powi (52 - e)\<bar> < 1 / 2"
  shows "round_to_double x = of_int n * 2 powi (e - 52)"
proof -
  have e: "ilog2 x = e" using assms(1-3) by (rule ilog2_unique)
  have "round_half_even (x * 2 powi (52 - e)) = n"
    using assms(4) by (rule round_half_even_unique)
  then show ?thesis
    using assms(1) by (simp add: round_to_double_def Let_def e)
qed

lemma double_0_95_value: "double_0_95 = 8556839292003942 / 9007199254740992"
proof -
  have "round_to_double (95 / 100) = of_int 8556839292003942 * 2 powi (- 1 - 52)"
    by (rule round_to_double_grid) (simp_all add: power_int_minus)
  then show ?thesis by (simp add: double_0_95_def power_int_minus)
qed

lemma double_0_99_value: "double_0_99 = 8917127262193582 / 9007199254740992"
proof -
  have "round_to_double (99 / 100) = of_int 8917127262193582 * 2 powi (- 1 - 52)"
    by (rule round_to_double_grid) (simp_all add: power_int_minus)
  then show ?thesis by (simp add: double_0_99_def power_int_minus)
qed

lemma round_to_double_of_nat:
  assumes "N < 2 ^ 53"
  shows "round_to_double (of_nat N) = of_nat N"
proof (cases "N = 0")
  case True
  then show ?thesis by (simp add: round_to_double_def)
next
  case False
  have "(of_nat N :: rat) < of_nat (2 ^ 53)"
    using assms by (simp only: of_nat_less_iff)
  then have "round_to_double (of_nat N) = of_int (int N)"
    using False by (intro round_to_double_exact) simp_all
  then show ?thesis by simp
qed

subsection \<open>The percentile indices\<close>

text \<open>
  The index computed in double arithmetic is the floor of the exact product: the literal
  \<open>0.95\<close> is the double \<open>8556839292003942 / 2\<^sup>5\<^sup>3\<close>, a little below 19/20, and the rounding of
  the product makes up for it whenever the exact product is a whole number.
\<close>

lemma p95_index:
  assumes "0 < N" "N < 2 ^ 40"
  shows "nat \<lfloor>round_to_double (round_to_double (of_nat N) * double_0_95)\<rfloor> = 19 * N div 20"
proof -
  define M f where "M = 19 * N div 20" and "f = 19 * N mod 20"
  define n Mr fr :: rat where "n = of_nat N" and "Mr = of_nat M" and "fr = of_nat f"
  define x where "x = n * (8556839292003942 / 9007199254740992)"
  have "19 * N = 20 * M + f" by (simp add: M_def f_def)
  then have "(of_nat (19 * N) :: rat) = of_nat (20 * M + f)" by (rule arg_cong)
  then have split: "19 * n = 20 * Mr + fr" by (simp add: n_def Mr_def fr_def)
  have "f \<le> 19" using mod_less_divisor [of 20 "19 * N"] by (simp add: f_def)
  then have "(of_nat f :: rat) \<le> of_nat 19" by (simp only: of_nat_le_iff)
  then have fr_le: "fr \<le> 19" by (simp add: fr_def)
  have fr0: "0 \<le> fr" and Mr0: "0 \<le> Mr" by (simp_all add: fr_def Mr_def)
  have "(of_nat 1 :: rat) \<le> of_nat N" using assms(1) by (simp only: of_nat_le_iff)
  then have n1: "1 \<le> n" by (simp add: n_def)
  have "(of_nat N :: rat) < of_nat (2 ^ 40)" using assms(2) by (simp only: of_nat_less_iff)
  then have n40: "n < 1099511627776" by (simp add: n_def)
  have "N < 2 ^ 53" using assms(2) by (rule less_trans) simp
  then have conv: "round_to_double (of_nat N) = n"
    unfolding n_def by (rule round_to_double_of_nat)
  have arg: "round_to_double (of_nat N) * double_0_95 = x"
    by (simp add: conv double_0_95_value x_def)
  have xpos: "0 < x" using n1 by (simp add: x_def)
  have "\<lfloor>round_to_double x\<rfloor> = int M"
  proof (cases "f = 0")
    case True
    with split have s0: "19 * n = 20 * Mr" by (simp add: fr_def)
    have "round_to_double x = of_int (int M)"
    proof (rule round_to_double_exact [OF xpos])
      show "x < 2 ^ 53" using n40 n1 by (simp add: x_def)
      have "Mr - x = n * (8 / (20 * 9007199254740992))"
        using s0 by (simp add: x_def field_simps)
      moreover have "0 \<le> n * (8 / (20 * 9007199254740992))" using n1 by simp
      ultimately have "\<bar>Mr - x\<bar> * 2 ^ 54 = n * (16 / 20)" by simp
      also have "\<dots> \<le> x" using n1 by (simp add: x_def field_simps)
      finally show "\<bar>of_int (int M) - x\<bar> * 2 ^ 54 \<le> x" by (simp add: Mr_def)
    qed
    then show ?thesis by simp
  next
    case False
    then have "1 \<le> f" by simp
    then have "(of_nat 1 :: rat) \<le> of_nat f" by (simp only: of_nat_le_iff)
    then have fr1: "1 \<le> fr" by (simp add: fr_def)
    have err: "\<bar>round_to_double x - x\<bar> \<le> x / 2 ^ 53"
      using xpos by (rule round_to_double_error)
    have xeq: "20 * x = 20 * Mr + fr - n * (8 / 9007199254740992)"
      using split by (simp add: x_def field_simps)
    have xn: "x \<le> n" using n1 by (simp add: x_def)
    have small: "x / 2 ^ 53 < 1 / 8192"
      using xn n40 by simp
    have small2: "n * (8 / 9007199254740992) < 1 / 1024"
      using n40 by simp
    from err small have "\<bar>round_to_double x - x\<bar> < 1 / 8192"
      by (rule le_less_trans)
    then have near: "x - 1 / 8192 < round_to_double x" "round_to_double x < x + 1 / 8192"
      by linarith+
    have "Mr \<le> round_to_double x"
      using near(1) xeq fr1 small2 by linarith
    then have lo: "of_int (int M) \<le> round_to_double x"
      by (simp add: Mr_def)
    have "round_to_double x < Mr + 1"
      using near(2) xeq fr_le small2 n1 by linarith
    then have hi: "round_to_double x < of_int (int M) + 1"
      by (simp add: Mr_def)
    from lo hi show ?thesis by (rule floor_unique)
  qed
  then show ?thesis
    by (simp add: arg M_def)
qed

lemma p99_index:
  assumes "0 < N" "N < 2 ^ 40"
  shows "nat \<lfloor>round_to_double (round_to_double (of_nat N) * double_0_99)\<rfloor> = 99 * N div 100"
proof -
  define M f where "M = 99 * N div 100" and "f = 99 * N mod 100"
  define n Mr fr :: rat where "n = of_nat N" and "Mr = of_nat M" and "fr = of_nat f"
  define x where "x = n * (8917127262193582 / 9007199254740992)"
  have "99 * N = 100 * M + f" by (simp add: M_def f_def)
  then have "(of_nat (99 * N) :: rat) = of_nat (100 * M + f)" by (rule arg_cong)
  then have split: "99 * n = 100 * Mr + fr" by (simp add: n_def Mr_def fr_def)
  have "f \<le> 99" using mod_less_divisor [of 100 "99 * N"] by (simp add: f_def)
  then have "(of_nat f :: rat) \<le> of_nat 99" by (simp only: of_nat_le_iff)
  then have fr_le: "fr \<le> 99" by (simp add: fr_def)
  have fr0: "0 \<le> fr" and Mr0: "0 \<le> Mr" by (simp_all add: fr_def Mr_def)
  have "(of_nat 1 :: rat) \<le> of_nat N" using assms(1) by (simp only: of_nat_le_iff)
  then have n1: "1 \<le> n" by (simp add: n_def)
  have "(of_nat N :: rat) < of_nat (2 ^ 40)" using assms(2) by (simp only: of_nat_less_iff)
  then have n40: "n < 1099511627776" by (simp add: n_def)
  have "N < 2 ^ 53" using assms(2) by (rule less_trans) simp
  then have conv: "round_to_double (of_nat N) = n"
    unfolding n_def by (rule round_to_double_of_nat)
  have arg: "round_to_double (of_nat N) * double_0_99 = x"
    by (simp add: conv double_0_99_value x_def)
  have xpos: "0 < x" using n1 by (simp add: x_def)
  have "\<lfloor>round_to_double x\<rfloor> = int M"
  proof (cases "f = 0")
    case True
    with split have s0: "99 * n = 100 * Mr" by (simp add: fr_def)
    have "round_to_double x = of_int (int M)"
    proof (rule round_to_double_exact [OF xpos])
      show "x < 2 ^ 53" using n40 n1 by (simp add: x_def)
      have "Mr - x = n * (8 / (100 * 9007199254740992))"
        using s0 by (simp add: x_def field_simps)
      moreover have "0 \<le> n * (8 / (100 * 9007199254740992))" using n1 by simp
      ultimately have "\<bar>Mr - x\<bar> * 2 ^ 54 = n * (16 / 100)" by simp
      also have "\<dots> \<le> x" using n1 by (simp add: x_def field_simps)
      finally show "\<bar>of_int (int M) - x\<bar> * 2 ^ 54 \<le> x" by (simp add: Mr_def)
    qed
    then show ?thesis by simp
  next
    case False
    then have "1 \<le> f" by simp
    then have "(of_nat 1 :: rat) \<le> of_nat f" by (simp only: of_nat_le_iff)
    then have fr1: "1 \<le> fr" by (simp add: fr_def)
    have err: "\<bar>round_to_double x - x\<bar> \<le> x / 2 ^ 53"
      using xpos by (rule round_to_double_error)
    have xeq: "100 * x = 100 * Mr + fr - n * (8 / 9007199254740992)"
      using split by (simp add: x_def field_simps)
    have xn: "x \<le> n" using n1 by (simp add: x_def)
    have small: "x / 2 ^ 53 < 1 / 8192"
      using xn n40 by simp
    have small2: "n * (8 / 9007199254740992) < 1 / 1024"
      using n40 by simp
    from err small have "\<bar>round_to_double x - x\<bar> < 1 / 8192"
      by (rule le_less_trans)
    then have near: "x - 1 / 8192 < round_to_double x" "round_to_double x < x + 1 / 8192"
      by linarith+
    have "Mr \<le> round_to_double x"
      using near(1) xeq fr1 small2 by linarith
    then have lo: "of_int (int M) \<le> round_to_double x"
      by (simp add: Mr_def)
    have "round_to_double x < Mr + 1"
      using near(2) xeq fr_le small2 n1 by linarith
    then have hi: "round_to_double x < of_int (int M) + 1"
      by (simp add: Mr_def)
    from lo hi show ?thesis by (rule floor_unique)
  qed
  then show ?thesis
    by (simp add: arg M_def)
qed

lemma floor_percent:
  "nat \<lfloor>of_nat N * (95 / 100 :: rat)\<rfloor> = 19 * N div 20"
  "nat \<lfloor>of_nat N * (99 / 100 :: rat)\<rfloor> = 99 * N div 100"
proof -
  have "of_nat N * (95 / 100 :: rat) = of_nat (19 * N) / of_nat 20" by simp
  then have "\<lfloor>of_nat N * (95 / 100 :: rat)\<rfloor> = int (19 * N div 20)"
    by (simp only: floor_divide_of_nat_eq)
  then show "nat \<lfloor>of_nat N * (95 / 100 :: rat)\<rfloor> = 19 * N div 20"
    by (simp only: nat_int)
  have "of_nat N * (99 / 100 :: rat) = of_nat (99 * N) / of_nat 100" by simp
  then have "\<lfloor>of_nat N * (99 / 100 :: rat)\<rfloor> = int (99 * N div 100)"
    by (simp only: floor_divide_of_nat_eq)
  then show "nat \<lfloor>of_nat N * (99 / 100 :: rat)\<rfloor> = 99 * N div 100"
    by (simp only: nat_int)
qed

lemma double_div_exact:
  assumes "S < 2 ^ 53" "0 < N" "N < 2 ^ 53" "N dvd S"
  shows "double_div (double_of_nat S) (double_of_nat N) = of_nat S / of_nat N"
proof -
  from assms(4) obtain q where q: "S = N * q" by (rule dvdE)
  with assms(1,2) have "q < 2 ^ 53"
    by (metis le_less_trans mult.commute mult_le_mono2 mult.right_neutral Suc_leI One_nat_def)
  then have "round_to_double (of_nat q) = of_nat q" by (rule round_to_double_of_nat)
  moreover have "(of_nat S :: rat) / of_nat N = of_nat q" using q assms(2) by simp
  ultimately show ?thesis
    by (simp add: double_div_def double_of_nat_def round_to_double_of_nat [OF assms(1)]
        round_to_double_of_nat [OF assms(3)])
qed

lemma double_div_error:
  assumes "0 < S" "S < 2 ^ 53" "0 < N" "N < 2 ^ 53"
  shows "\<bar>double_div (double_of_nat S) (double_of_nat N) - of_nat S / of_nat N\<bar>
           \<le> of_nat S / of_nat N / 2 ^ 53"
proof -
  have "(0 :: rat) < of_nat S / of_nat N" using assms by simp
  then show ?thesis
    unfolding double_div_def double_of_nat_def
    by (simp only: round_to_double_of_nat [OF assms(2)] round_to_double_of_nat [OF assms(4)])
       (rule round_to_double_error)
qed

lemma sum_list_insort: "sum_list (insort x xs) = x + sum_list (xs :: 64 word list)"
  by (induction xs) (simp_all add: ac_simps)

lemma sum_list_sort: "sum_list (sort xs) = sum_list (xs :: 64 word list)"
  by (induction xs) (simp_all add: sum_list_insort)

lemma foldl_plus_sum_list: "foldl (+) a xs = a + sum_list (xs :: 64 word list)"
  by (induction xs arbitrary: a) (simp_all add: ac_simps)

lemma sorted_bounds:
  fixes ys :: "64 word list"
  assumes "sorted ys" "x \<in> set ys"
  shows "ys ! 0 \<le> x \<and> x \<le> ys ! (length ys - 1)"
proof -
  from assms(2) obtain j where j: "j < length ys" "ys ! j = x"
    by (auto simp: in_set_conv_nth)
  have "ys ! 0 \<le> ys ! j" using assms(1) j(1) by (intro sorted_nth_mono) simp_all
  moreover have "ys ! j \<le> ys ! (length ys - 1)"
    using assms(1) j(1) by (intro sorted_nth_mono) simp_all
  ultimately show ?thesis by (simp add: j(2))
qed

text \<open>
  \<^bold>\<open>Claim C3.\<close> For every nonempty list of latency samples (of fewer than \<open>2\<^sup>4\<^sup>0\<close> samples;
  the benchmark collects at most 1000), the statistics block sorts the samples ascending
  and reports min = \<open>samples[0]\<close>, max = \<open>samples[N-1]\<close> (a least and a greatest sample),
  P50 = \<open>samples[N div 2]\<close>, P95 = \<open>samples[floor(N * 0.95)]\<close> and
  P99 = \<open>samples[floor(N * 0.99)]\<close>, the floors being those of the exact products; no index
  is out of range. The mean is the quotient sum/N computed in double arithmetic: when the
  sum is below \<open>2\<^sup>5\<^sup>3\<close> it is within a relative error of \<open>2\<^sup>-\<^sup>5\<^sup>3\<close> of sum/N, and it is sum/N
  exactly when N divides the sum.
\<close>

theorem latency_statistics_percentiles:
  assumes "latencies \<noteq> []" and "length latencies < 2 ^ 40"
  shows "\<exists>r. latency_statistics latencies = Some (Some r) \<and>
     latencies_front r = sort latencies ! 0 \<and>
     latencies_back r = sort latencies ! (length latencies - 1) \<and>
     p50_latency r = sort latencies ! (length latencies div 2) \<and>
     p95_latency r = sort latencies ! nat \<lfloor>of_nat (length latencies) * (95 / 100 :: rat)\<rfloor> \<and>
     p99_latency r = sort latencies ! nat \<lfloor>of_nat (length latencies) * (99 / 100 :: rat)\<rfloor> \<and>
     sorted (sort latencies) \<and> set (sort latencies) = set latencies \<and>
     length (sort latencies) = length latencies \<and>
     latencies_front r \<in> set latencies \<and> latencies_back r \<in> set latencies \<and>
     (\<forall>x \<in> set latencies. latencies_front r \<le> x \<and> x \<le> latencies_back r) \<and>
     (unat (sum_list latencies) < 2 ^ 53 \<longrightarrow>
        \<bar>avg_latency r - of_nat (unat (sum_list latencies)) / of_nat (length latencies)\<bar>
          \<le> of_nat (unat (sum_list latencies)) / of_nat (length latencies) / 2 ^ 53 \<and>
        (length latencies dvd unat (sum_list latencies) \<longrightarrow>
           avg_latency r = of_nat (unat (sum_list latencies)) / of_nat (length latencies)))"
proof -
  define ys where "ys = sort latencies"
  define N where "N = length latencies"
  define S where "S = unat (sum_list latencies)"
  have len: "length ys = N" and N0: "0 < N" and N40: "N < 2 ^ 40"
    using assms by (simp_all add: ys_def N_def)
  have N53: "N < 2 ^ 53" using N40 by (rule less_trans) simp
  have srt: "sorted ys" and st: "set ys = set latencies"
    by (simp_all add: ys_def)
  have sum: "foldl (+) 0 ys = sum_list latencies"
    by (simp add: foldl_plus_sum_list ys_def sum_list_sort)
  have i95: "size_t_of_double (double_mult (double_of_nat N) double_0_95) = 19 * N div 20"
    unfolding size_t_of_double_def double_mult_def double_of_nat_def
    using N0 N40 by (rule p95_index)
  have i99: "size_t_of_double (double_mult (double_of_nat N) double_0_99) = 99 * N div 100"
    unfolding size_t_of_double_def double_mult_def double_of_nat_def
    using N0 N40 by (rule p99_index)
  have in_range: "N div 2 < N" "19 * N div 20 < N" "99 * N div 100 < N" "N - 1 < N"
    using N0 by simp_all
  define r where "r = \<lparr>avg_latency = double_div (double_of_nat S) (double_of_nat N),
     p50_latency = ys ! (N div 2), p95_latency = ys ! (19 * N div 20),
     p99_latency = ys ! (99 * N div 100), latencies_front = ys ! 0,
     latencies_back = ys ! (N - 1)\<rparr>"
  have ne: "ys \<noteq> []" using len N0 by auto
  have run: "latency_statistics latencies = Some (Some r)"
    using assms(1) in_range N0 ne
    by (simp add: latency_statistics_def Let_def vector_at_def ys_def [symmetric] len sum i95 i99
        r_def S_def)
  have mem: "ys ! 0 \<in> set latencies" "ys ! (N - 1) \<in> set latencies"
    using N0 len st nth_mem [of 0 ys] nth_mem [of "N - 1" ys] by simp_all
  have bounds: "\<forall>x \<in> set latencies. ys ! 0 \<le> x \<and> x \<le> ys ! (N - 1)"
    using sorted_bounds [OF srt] st len by simp
  have avg: "S < 2 ^ 53 \<longrightarrow>
        \<bar>avg_latency r - of_nat S / of_nat N\<bar> \<le> of_nat S / of_nat N / 2 ^ 53 \<and>
        (N dvd S \<longrightarrow> avg_latency r = of_nat S / of_nat N)"
  proof (intro impI conjI)
    assume S53: "S < 2 ^ 53"
    show "avg_latency r = of_nat S / of_nat N" if "N dvd S"
      using double_div_exact [OF S53 N0 N53 that] by (simp add: r_def)
    show "\<bar>avg_latency r - of_nat S / of_nat N\<bar> \<le> of_nat S / of_nat N / 2 ^ 53"
    proof (cases "S = 0")
      case True
      then show ?thesis
        using double_div_exact [OF S53 N0 N53] by (simp add: r_def)
    next
      case False
      then have "0 < S" by simp
      from double_div_error [OF this S53 N0 N53] show ?thesis by (simp add: r_def)
    qed
  qed
  show ?thesis
    apply (rule exI [of _ r])
    apply (simp only: run floor_percent N_def [symmetric] S_def [symmetric] ys_def [symmetric])
    apply (insert srt st len mem bounds avg)
    apply (simp add: r_def)
    done
qed

text \<open>
  C3 at the sample set \<open>{2,4,4,4,5,5,7,9}\<close>: the mean is 5, P50 is the sample at index 4,
  which is 5, the minimum is 2 and the maximum 9.
\<close>

theorem latency_statistics_percentiles_witness:
  "latency_statistics [2, 4, 4, 4, 5, 5, 7, 9] =
     Some (Some \<lparr>avg_latency = 5, p50_latency = 5, p95_latency = 9, p99_latency = 9,
                  latencies_front = 2, latencies_back = 9\<rparr>)"
proof -
  let ?xs = "[2, 4, 4, 4, 5, 5, 7, 9] :: 64 word list"
  have srt: "sort ?xs = ?xs" by simp
  have fl: "nat \<lfloor>of_nat (8 :: nat) * (95 / 100 :: rat)\<rfloor> = 7"
    "nat \<lfloor>of_nat (8 :: nat) * (99 / 100 :: rat)\<rfloor> = 7"
    using floor_percent [of 8] by simp_all
  have sm: "unat (sum_list ?xs) = 40" by simp
  have len: "length ?xs = 8" by simp
  have dv: "(8 :: nat) dvd 40" by simp
  have "?xs \<noteq> []" "length ?xs < 2 ^ 40" by simp_all
  note T = latency_statistics_percentiles [OF this, unfolded srt len fl sm]
  from T dv
  obtain r where run: "latency_statistics ?xs = Some (Some r)"
    and f: "latencies_front r = 2" "latencies_back r = 9" "p50_latency r = 5"
      "p95_latency r = 9" "p99_latency r = 9"
    and avg: "avg_latency r = 5"
    by (elim exE conjE) simp
  have "r = \<lparr>avg_latency = 5, p50_latency = 5, p95_latency = 9, p99_latency = 9,
                  latencies_front = 2, latencies_back = 9\<rparr>"
    using f avg by (cases r) simp
  with run show ?thesis by simp
qed

end
